theory Spec2Isabelle
  imports Complex_Main
begin

section \<open>PRANA audio processing engine (AudioProcessor.jsx)\<close>

text \<open>
  A shallow embedding of \<^verbatim>\<open>src/components/prana/AudioProcessor.jsx\<close>: the circular
  buffer, the priority queue, the per-frame feature functions, the sliding-window
  pipeline, the peak detector, the noise gate, the analysis driver and the classifier.

  Numbers. A JavaScript number is modelled by \<open>jsnum\<close>: a real number, one of the two
  infinities, or NaN. Rounding to double and the sign of zero are not modelled: finite
  arithmetic is exact real arithmetic, and a zero divisor counts as \<open>+0\<close>, which is what
  every divisor of the program is when it is zero (an array length, \<open>length - 1\<close>,
  \<open>windowSize * 2\<close>). Everything the theorems depend on (comparisons against thresholds,
  \<open>0/0\<close>, sums of zeros) is the same on doubles. Array lengths, indices and the sample
  rate are natural numbers.

  Single precision. A store into a \<^verbatim>\<open>Float32Array\<close> rounds the number to the nearest
  single-precision value, ties to even: \<open>Math_fround\<close>. The noise gate, which takes any
  array of numbers, stores through it. The circular buffer holds samples, which are single
  precision already, so its stores are exact; the values the transform and the envelope
  compute are kept exact as well.
\<close>

subsection \<open>JavaScript numbers\<close>

datatype jsnum = Fin real | PInf | NInf | NaN

fun js_neg :: "jsnum \<Rightarrow> jsnum" where
  "js_neg (Fin a) = Fin (- a)"
| "js_neg PInf = NInf"
| "js_neg NInf = PInf"
| "js_neg NaN = NaN"

fun js_add :: "jsnum \<Rightarrow> jsnum \<Rightarrow> jsnum" where
  "js_add (Fin a) (Fin b) = Fin (a + b)"
| "js_add NaN _ = NaN"
| "js_add _ NaN = NaN"
| "js_add PInf NInf = NaN"
| "js_add NInf PInf = NaN"
| "js_add PInf _ = PInf"
| "js_add _ PInf = PInf"
| "js_add NInf _ = NInf"
| "js_add _ NInf = NInf"

definition js_sub :: "jsnum \<Rightarrow> jsnum \<Rightarrow> jsnum" where
  "js_sub a b = js_add a (js_neg b)"

definition inf_signed :: "real \<Rightarrow> jsnum" where
  \<comment> \<open>an infinity with the sign of \<open>s\<close>; \<open>0 * Infinity\<close> and \<open>0 / 0\<close> are NaN\<close>
  "inf_signed s = (if s = 0 then NaN else if 0 < s then PInf else NInf)"

fun js_mul :: "jsnum \<Rightarrow> jsnum \<Rightarrow> jsnum" where
  "js_mul (Fin a) (Fin b) = Fin (a * b)"
| "js_mul NaN _ = NaN"
| "js_mul _ NaN = NaN"
| "js_mul (Fin a) PInf = inf_signed a"
| "js_mul (Fin a) NInf = inf_signed (- a)"
| "js_mul PInf (Fin b) = inf_signed b"
| "js_mul NInf (Fin b) = inf_signed (- b)"
| "js_mul PInf PInf = PInf"
| "js_mul PInf NInf = NInf"
| "js_mul NInf PInf = NInf"
| "js_mul NInf NInf = PInf"

fun js_div :: "jsnum \<Rightarrow> jsnum \<Rightarrow> jsnum" where
  "js_div (Fin a) (Fin b) = (if b = 0 then inf_signed a else Fin (a / b))"
| "js_div NaN _ = NaN"
| "js_div _ NaN = NaN"
| "js_div (Fin a) PInf = Fin 0"
| "js_div (Fin a) NInf = Fin 0"
| "js_div PInf (Fin b) = (if b < 0 then NInf else PInf)"
| "js_div NInf (Fin b) = (if b < 0 then PInf else NInf)"
| "js_div PInf PInf = NaN"
| "js_div PInf NInf = NaN"
| "js_div NInf PInf = NaN"
| "js_div NInf NInf = NaN"

fun js_lt :: "jsnum \<Rightarrow> jsnum \<Rightarrow> bool" where
  "js_lt (Fin a) (Fin b) = (a < b)"
| "js_lt NaN _ = False"
| "js_lt _ NaN = False"
| "js_lt PInf _ = False"
| "js_lt _ NInf = False"
| "js_lt NInf _ = True"
| "js_lt _ PInf = True"

definition js_gt :: "jsnum \<Rightarrow> jsnum \<Rightarrow> bool" where
  "js_gt a b = js_lt b a"

definition js_ge :: "jsnum \<Rightarrow> jsnum \<Rightarrow> bool" where
  \<comment> \<open>\<open>a >= b\<close>: false when either side is NaN\<close>
  "js_ge a b = (a \<noteq> NaN \<and> b \<noteq> NaN \<and> \<not> js_lt a b)"

fun Math_abs :: "jsnum \<Rightarrow> jsnum" where
  "Math_abs (Fin a) = Fin \<bar>a\<bar>"
| "Math_abs PInf = PInf"
| "Math_abs NInf = PInf"
| "Math_abs NaN = NaN"

fun Math_sqrt :: "jsnum \<Rightarrow> jsnum" where
  "Math_sqrt (Fin a) = (if a < 0 then NaN else Fin (sqrt a))"
| "Math_sqrt PInf = PInf"
| "Math_sqrt NInf = NaN"
| "Math_sqrt NaN = NaN"

definition Math_min :: "jsnum \<Rightarrow> jsnum \<Rightarrow> jsnum" where
  "Math_min a b = (if a = NaN \<or> b = NaN then NaN else if js_lt b a then b else a)"

definition Math_max :: "jsnum \<Rightarrow> jsnum \<Rightarrow> jsnum" where
  "Math_max a b = (if a = NaN \<or> b = NaN then NaN else if js_lt a b then b else a)"

fun Math_round :: "jsnum \<Rightarrow> jsnum" where
  \<comment> \<open>halves round towards \<open>+Infinity\<close>\<close>
  "Math_round (Fin a) = Fin (of_int \<lfloor>a + 1 / 2\<rfloor>)"
| "Math_round x = x"

definition Math_pow2 :: "jsnum \<Rightarrow> jsnum" where
  \<comment> \<open>\<open>Math.pow(x, 2)\<close>\<close>
  "Math_pow2 x = js_mul x x"

definition num :: "nat \<Rightarrow> jsnum" where
  \<comment> \<open>an array length or index used as a number\<close>
  "num n = Fin (real n)"

definition round_half_even :: "real \<Rightarrow> int" where
  \<comment> \<open>the nearest integer, a tie going to the even one\<close>
  "round_half_even r =
     (let f = \<lfloor>r\<rfloor>; d = r - of_int f
      in if d < 1 / 2 then f else if 1 / 2 < d then f + 1 else if even f then f else f + 1)"

definition f32_exponent :: "real \<Rightarrow> int" where
  \<comment> \<open>the binary exponent of \<open>x\<close>, not below that of the subnormal numbers\<close>
  "f32_exponent x = max \<lfloor>log 2 \<bar>x\<bar>\<rfloor> (- 126)"

fun Math_fround :: "jsnum \<Rightarrow> jsnum" where
  \<comment> \<open>the value a \<^verbatim>\<open>Float32Array\<close> element holds after a store of \<open>x\<close>: a multiple of
      \<open>2 ^ (e - 23)\<close> with a 24-bit significand, or an infinity from \<open>2 ^ 128\<close> on\<close>
  "Math_fround (Fin x) =
     (if x = 0 then Fin 0
      else (let q = 2 powr of_int (f32_exponent x - 23);
                y = of_int (round_half_even (x / q)) * q
            in if 2 ^ 128 \<le> \<bar>y\<bar> then inf_signed x else Fin y))"
| "Math_fround x = x"

subsection \<open>Circular buffer\<close>

text \<open>
  \<^verbatim>\<open>new Float32Array(size)\<close> throws a RangeError for a negative length and for a
  length beyond what the engine allocates, and gives \<open>size\<close> zeros otherwise. That
  largest length is a constant of the engine, not of the program: the parameter
  \<open>maxLength\<close> of the constructor. \<open>head\<close> and \<open>tail\<close> are indices or NaN (\<open>None\<close>): \<open>x % 0\<close> is
  NaN. A store at an index outside a typed array (or at NaN) does nothing; a read there
  gives \<open>undefined\<close>, which a \<^verbatim>\<open>Float32Array\<close> stores as NaN. Samples are taken to
  be single precision already, so a store keeps the value it is given.
\<close>

datatype error = RangeError

record CircularBuffer =
  buffer :: "jsnum list"
  size_cb :: nat
  head :: "nat option"
  tail :: "nat option"
  count :: nat

definition CircularBuffer_new :: "nat \<Rightarrow> int \<Rightarrow> error + CircularBuffer" where
  "CircularBuffer_new maxLength sz =
     (if sz < 0 \<or> int maxLength < sz then Inl RangeError
      else Inr \<lparr>buffer = replicate (nat sz) (Fin 0), size_cb = nat sz,
                head = Some 0, tail = Some 0, count = 0\<rparr>)"

fun js_mod :: "nat option \<Rightarrow> nat \<Rightarrow> nat option" where
  \<comment> \<open>\<open>a % n\<close> on non-negative integers; NaN when \<open>a\<close> is NaN or \<open>n\<close> is 0\<close>
  "js_mod None n = None"
| "js_mod (Some a) n = (if n = 0 then None else Some (a mod n))"

definition js_plus :: "nat option \<Rightarrow> nat \<Rightarrow> nat option" where
  "js_plus a i = map_option (\<lambda>k. k + i) a"

definition store :: "jsnum list \<Rightarrow> nat option \<Rightarrow> jsnum \<Rightarrow> jsnum list" where
  "store xs i v = (case i of Some k \<Rightarrow> (if k < length xs then xs[k := v] else xs) | None \<Rightarrow> xs)"

definition load :: "jsnum list \<Rightarrow> nat option \<Rightarrow> jsnum" where
  "load xs i = (case i of Some k \<Rightarrow> (if k < length xs then xs ! k else NaN) | None \<Rightarrow> NaN)"

definition push :: "CircularBuffer \<Rightarrow> jsnum \<Rightarrow> CircularBuffer" where
  "push b v =
     (let b1 = b\<lparr>buffer := store (buffer b) (tail b) v\<rparr>;
          b2 = b1\<lparr>tail := js_mod (js_plus (tail b1) 1) (size_cb b1)\<rparr>
      in if count b2 < size_cb b2 then b2\<lparr>count := count b2 + 1\<rparr>
         else b2\<lparr>head := js_mod (js_plus (head b2) 1) (size_cb b2)\<rparr>)"

definition pushArray :: "CircularBuffer \<Rightarrow> jsnum list \<Rightarrow> CircularBuffer" where
  "pushArray b arr = foldl push b arr"

definition toArray :: "CircularBuffer \<Rightarrow> jsnum list" where
  "toArray b = map (\<lambda>i. load (buffer b) (js_mod (js_plus (head b) i) (size_cb b))) [0..<count b]"

definition clear :: "CircularBuffer \<Rightarrow> CircularBuffer" where
  "clear b = b\<lparr>head := Some 0, tail := Some 0, count := 0\<rparr>"

subsection \<open>Priority queue\<close>

record 'e item =
  element :: 'e
  priority :: jsnum

fun enqueue_loop :: "'e item \<Rightarrow> 'e item list \<Rightarrow> 'e item list" where
  \<comment> \<open>the scan of \<open>enqueue\<close>: splice before the first item of lower priority, else push\<close>
  "enqueue_loop it [] = [it]"
| "enqueue_loop it (x # xs) =
     (if js_gt (priority it) (priority x) then it # x # xs else x # enqueue_loop it xs)"

definition enqueue :: "'e item list \<Rightarrow> 'e \<Rightarrow> jsnum \<Rightarrow> 'e item list" where
  "enqueue items e p = enqueue_loop \<lparr>element = e, priority = p\<rparr> items"

definition isEmpty :: "'e item list \<Rightarrow> bool" where
  "isEmpty items = (length items = 0)"

subsection \<open>Frame features\<close>

record spectrum =
  real_fft :: "jsnum list"
  imag_fft :: "jsnum list"
  magnitudes :: "jsnum list"

definition paddedLength :: "nat \<Rightarrow> nat" where
  \<comment> \<open>\<open>Math.pow(2, Math.ceil(Math.log2(n)))\<close>; \<open>log2(0)\<close> is \<open>-Infinity\<close> and gives 0\<close>
  "paddedLength n = (if n = 0 then 0 else 2 ^ nat \<lceil>log 2 (real n)\<rceil>)"

definition fft_sums :: "jsnum list \<Rightarrow> nat \<Rightarrow> nat \<Rightarrow> jsnum \<times> jsnum" where
  \<comment> \<open>the inner loop over \<open>t\<close> for one bin \<open>k\<close>: \<open>(sumReal, sumImag)\<close>\<close>
  "fft_sums padded P k =
     foldl (\<lambda>(sumReal, sumImag) t.
              let angle = (2 * pi * real k * real t) / real P
              in (js_add sumReal (js_mul (padded ! t) (Fin (cos angle))),
                  js_sub sumImag (js_mul (padded ! t) (Fin (sin angle)))))
           (Fin 0, Fin 0) [0..<P]"

definition fft :: "jsnum list \<Rightarrow> spectrum" where
  \<comment> \<open>the three result arrays have length \<open>paddedLength / 2\<close>, truncated (0 for a padded
      length of 1); the stores of the bins beyond that length are dropped\<close>
  "fft signal =
     (let n = length signal;
          P = paddedLength n;
          padded = signal @ replicate (P - n) (Fin 0);
          bins = map (fft_sums padded P) [0..<P div 2]
      in \<lparr>real_fft = map fst bins, imag_fft = map snd bins,
          magnitudes = map (\<lambda>(sumReal, sumImag).
             Math_sqrt (js_add (js_mul sumReal sumReal) (js_mul sumImag sumImag))) bins\<rparr>)"

definition crossing :: "jsnum list \<Rightarrow> nat \<Rightarrow> bool" where
  "crossing signal i =
     ((js_ge (signal ! i) (Fin 0) \<and> js_lt (signal ! (i - 1)) (Fin 0)) \<or>
      (js_lt (signal ! i) (Fin 0) \<and> js_ge (signal ! (i - 1)) (Fin 0)))"

definition calculateZCR :: "jsnum list \<Rightarrow> jsnum" where
  "calculateZCR signal =
     (let crossings = foldl (\<lambda>c i. if crossing signal i then c + 1 else c) (0::nat)
                        [1..<length signal]
      in js_div (num crossings) (Fin (real_of_int (int (length signal) - 1))))"

definition calculateEnergy :: "jsnum list \<Rightarrow> jsnum" where
  "calculateEnergy signal =
     (let energy = foldl (\<lambda>e x. js_add e (js_mul x x)) (Fin 0) signal
      in js_div energy (num (length signal)))"

definition calculateRMS :: "jsnum list \<Rightarrow> jsnum" where
  "calculateRMS signal = Math_sqrt (calculateEnergy signal)"

subsection \<open>Peak detection\<close>

record peak =
  peak_index :: nat
  peak_value :: jsnum

definition is_candidate :: "jsnum list \<Rightarrow> jsnum \<Rightarrow> nat \<Rightarrow> bool" where
  \<comment> \<open>the first test of the loop body of \<open>detectPeaks\<close>\<close>
  "is_candidate signal threshold i =
     (js_gt (signal ! i) (signal ! (i - 1)) \<and> js_gt (signal ! i) (signal ! (i + 1)) \<and>
      js_gt (signal ! i) threshold)"

definition peak_step :: "jsnum list \<Rightarrow> jsnum \<Rightarrow> nat \<Rightarrow> peak list \<Rightarrow> nat \<Rightarrow> peak list" where
  \<comment> \<open>one iteration of the loop of \<open>detectPeaks\<close>\<close>
  "peak_step signal threshold minDistance peaks i =
     (if is_candidate signal threshold i then
        (if length peaks = 0 \<or> int minDistance < int i - int (peak_index (last peaks))
         then peaks @ [\<lparr>peak_index = i, peak_value = signal ! i\<rparr>] else peaks)
      else peaks)"

definition detectPeaks :: "jsnum list \<Rightarrow> jsnum \<Rightarrow> peak list" where
  \<comment> \<open>the loop runs over \<open>1 \<le> i < length - 1\<close>: no iteration for a length below 3\<close>
  "detectPeaks signal threshold =
     (let minDistance = length signal div 20
      in foldl (peak_step signal threshold minDistance) [] [1..<length signal - 1])"

subsection \<open>Sliding window analysis\<close>

record frame =
  startSample :: nat
  energy :: jsnum
  rms :: jsnum
  zcr :: jsnum
  dominantFreq :: jsnum
  fftMagnitudes :: "jsnum list"
  timestamp :: jsnum

definition dominantFreqBin :: "jsnum list \<Rightarrow> nat" where
  "dominantFreqBin mags =
     snd (foldl (\<lambda>(maxMag, bin) i. if js_gt (mags ! i) maxMag then (mags ! i, i) else (maxMag, bin))
            (Fin 0, 0) [1..<length mags])"

definition frame_at :: "jsnum list \<Rightarrow> nat \<Rightarrow> nat \<Rightarrow> nat \<Rightarrow> frame" where
  \<comment> \<open>the body of the loop of \<open>slidingWindowAnalysis\<close> at offset \<open>start\<close>\<close>
  "frame_at signal windowSize sampleRate start =
     (let window = take windowSize (drop start signal);
          fftResult = fft window
      in \<lparr>startSample = start,
          energy = calculateEnergy window,
          rms = calculateRMS window,
          zcr = calculateZCR window,
          dominantFreq = js_div (num (dominantFreqBin (magnitudes fftResult) * sampleRate))
                                (num (windowSize * 2)),
          fftMagnitudes = magnitudes fftResult,
          timestamp = js_div (num start) (num sampleRate)\<rparr>)"

partial_function (option) sw_loop ::
  "jsnum list \<Rightarrow> nat \<Rightarrow> nat \<Rightarrow> nat \<Rightarrow> nat \<Rightarrow> frame list \<Rightarrow> frame list option" where
  "sw_loop signal windowSize hopSize sampleRate start windows =
     (if int start < int (length signal) - int windowSize
      then sw_loop signal windowSize hopSize sampleRate (start + hopSize)
             (windows @ [frame_at signal windowSize sampleRate start])
      else Some windows)"

definition slidingWindowAnalysis ::
  "jsnum list \<Rightarrow> nat \<Rightarrow> nat \<Rightarrow> nat \<Rightarrow> frame list option" where
  \<comment> \<open>\<open>None\<close>: the loop does not end (a hop of 0 with a signal longer than the window)\<close>
  "slidingWindowAnalysis signal windowSize hopSize sampleRate =
     sw_loop signal windowSize hopSize sampleRate 0 []"

definition frame_count :: "nat \<Rightarrow> nat \<Rightarrow> nat \<Rightarrow> nat" where
  \<comment> \<open>the number of offsets \<open>k * hopSize\<close> with \<open>k * hopSize + windowSize < len\<close>\<close>
  "frame_count len windowSize hopSize =
     (if len \<le> windowSize then 0 else (len - windowSize - 1) div hopSize + 1)"

subsection \<open>Noise gate\<close>

definition removeNoise :: "jsnum list \<Rightarrow> jsnum \<Rightarrow> jsnum list" where
  \<comment> \<open>\<open>cleaned\<close> is a \<^verbatim>\<open>Float32Array\<close>: the kept sample is stored in single precision\<close>
  "removeNoise signal noiseThreshold =
     map (\<lambda>x. if js_gt (Math_abs x) noiseThreshold then Math_fround x else Fin 0) signal"

definition noiseThreshold_default :: jsnum where
  "noiseThreshold_default = Fin 0.02"

subsection \<open>Analysis and classification\<close>

text \<open>
  The feature map is written and read under eight fixed keys, so it is a record. Its
  history of time-stamped snapshots is not modelled. The classifier mutates the priority
  queue it is given and three local variables; the model passes them as a state.
\<close>

datatype abnormality_type = Wheezing | Irregular | Shortness | Noise

record abnormality =
  abn_type :: abnormality_type
  description :: string
  percentage :: jsnum

record reported = abnormality +
  severity :: jsnum

record FeatureMap =
  avgEnergy :: jsnum
  avgRMS :: jsnum
  avgZCR :: jsnum
  avgDominantFreq :: jsnum
  energyVariance :: jsnum
  breathingRate :: jsnum
  peakCount :: nat
  windowFeatures :: "frame list"

datatype status = Normal | Abnormal

datatype breathing_type = Deep | Slow | Regular

record Classification =
  status :: status
  breathingType :: "breathing_type option"
  abnormalityConfidence :: "jsnum option"
  stabilityScore :: jsnum
  lungComfort :: string
  confidenceScore :: jsnum

record cstate =
  queue :: "abnormality item list"
  abnormalityScore :: jsnum
  isNormal :: bool

definition NORMAL_ZCR_MAX :: jsnum where "NORMAL_ZCR_MAX = Fin 0.08"
definition NORMAL_VARIANCE_MAX :: jsnum where "NORMAL_VARIANCE_MAX = Fin 0.0005"
definition NORMAL_BREATHING_RATE_MIN :: jsnum where "NORMAL_BREATHING_RATE_MIN = Fin 10"
definition NORMAL_BREATHING_RATE_MAX :: jsnum where "NORMAL_BREATHING_RATE_MAX = Fin 18"
definition HIGH_AMPLITUDE_THRESHOLD :: jsnum where "HIGH_AMPLITUDE_THRESHOLD = Fin 0.06"
definition LOW_AMPLITUDE_THRESHOLD :: jsnum where "LOW_AMPLITUDE_THRESHOLD = Fin 0.01"
definition MIN_SIGNAL_THRESHOLD :: jsnum where "MIN_SIGNAL_THRESHOLD = Fin 0.008"

definition check_zcr :: "FeatureMap \<Rightarrow> cstate \<Rightarrow> cstate" where
  \<comment> \<open>Check 1\<close>
  "check_zcr fm st =
     (if js_gt (avgZCR fm) NORMAL_ZCR_MAX then
        (let sev = Math_min (Fin 100)
               (js_mul (js_div (js_sub (avgZCR fm) NORMAL_ZCR_MAX) NORMAL_ZCR_MAX) (Fin 100))
         in st\<lparr>queue := enqueue (queue st)
                  \<lparr>abn_type = Wheezing,
                   description = ''Wheezing pattern detected (high frequency)'',
                   percentage = Math_round (Math_max (Fin 35) sev)\<rparr> sev,
                abnormalityScore := js_add (abnormalityScore st) (js_mul sev (Fin 0.4)),
                isNormal := False\<rparr>)
      else st)"

definition check_variance :: "FeatureMap \<Rightarrow> cstate \<Rightarrow> cstate" where
  \<comment> \<open>Check 2\<close>
  "check_variance fm st =
     (if js_gt (energyVariance fm) NORMAL_VARIANCE_MAX then
        (let sev = Math_min (Fin 100)
               (js_mul (js_div (js_sub (energyVariance fm) NORMAL_VARIANCE_MAX)
                  NORMAL_VARIANCE_MAX) (Fin 80))
         in st\<lparr>queue := enqueue (queue st)
                  \<lparr>abn_type = Irregular,
                   description = ''Irregular breathing rhythm detected'',
                   percentage = Math_round (Math_max (Fin 30) sev)\<rparr> sev,
                abnormalityScore := js_add (abnormalityScore st) (js_mul sev (Fin 0.35)),
                isNormal := False\<rparr>)
      else st)"

definition check_rate :: "FeatureMap \<Rightarrow> cstate \<Rightarrow> cstate" where
  \<comment> \<open>Check 3\<close>
  "check_rate fm st =
     (if js_lt (breathingRate fm) NORMAL_BREATHING_RATE_MIN \<or>
         js_gt (breathingRate fm) NORMAL_BREATHING_RATE_MAX then
        (let (sev, descr) =
               (if js_lt (breathingRate fm) NORMAL_BREATHING_RATE_MIN then
                  (js_mul (js_div (js_sub NORMAL_BREATHING_RATE_MIN (breathingRate fm))
                     NORMAL_BREATHING_RATE_MIN) (Fin 70),
                   ''Slow breathing rate (Bradypnea)'')
                else
                  (js_mul (js_div (js_sub (breathingRate fm) NORMAL_BREATHING_RATE_MAX)
                     NORMAL_BREATHING_RATE_MAX) (Fin 80),
                   ''Rapid breathing rate (Tachypnea)''))
         in st\<lparr>queue := enqueue (queue st)
                  \<lparr>abn_type = Shortness, description = descr,
                   percentage = Math_round (Math_max (Fin 25) (Math_min (Fin 100) sev))\<rparr> sev,
                abnormalityScore := js_add (abnormalityScore st) (js_mul sev (Fin 0.3)),
                isNormal := False\<rparr>)
      else st)"

definition check_signal :: "FeatureMap \<Rightarrow> cstate \<Rightarrow> cstate" where
  \<comment> \<open>Check 4: \<open>isNormal\<close> is left as it is\<close>
  "check_signal fm st =
     (if js_lt (avgRMS fm) MIN_SIGNAL_THRESHOLD \<or> js_lt (avgEnergy fm) (Fin 0.00005) then
        st\<lparr>queue := enqueue (queue st)
             \<lparr>abn_type = Noise,
              description = ''Poor signal quality / Environmental noise'',
              percentage = Fin 35\<rparr> (Fin 35),
           abnormalityScore := js_add (abnormalityScore st) (Fin 15)\<rparr>
      else st)"

definition energySpikes :: "frame list \<Rightarrow> nat" where
  "energySpikes ws =
     length (filter (\<lambda>i. i \<noteq> 0 \<and> js_gt (energy (ws ! i)) (js_mul (energy (ws ! (i - 1))) (Fin 3)))
               [0..<length ws])"

definition check_spikes :: "FeatureMap \<Rightarrow> cstate \<Rightarrow> cstate" where
  \<comment> \<open>Check 5\<close>
  "check_spikes fm st =
     (if 3 < length (windowFeatures fm) \<and> 1 < energySpikes (windowFeatures fm) then
        (let sev = Math_min (Fin 80) (num (energySpikes (windowFeatures fm) * 20))
         in st\<lparr>queue := enqueue (queue st)
                  \<lparr>abn_type = Irregular,
                   description = ''Sudden energy spikes (cough/gasp pattern)'',
                   percentage = Math_round sev\<rparr> sev,
                abnormalityScore := js_add (abnormalityScore st) (js_mul sev (Fin 0.25)),
                isNormal := False\<rparr>)
      else st)"

definition run_checks :: "FeatureMap \<Rightarrow> abnormality item list \<Rightarrow> cstate" where
  "run_checks fm abnormalityQueue =
     check_spikes fm (check_signal fm (check_rate fm (check_variance fm (check_zcr fm
       \<lparr>queue = abnormalityQueue, abnormalityScore = Fin 0, isNormal = True\<rparr>))))"

definition lungComfort_of :: "jsnum \<Rightarrow> string" where
  "lungComfort_of score =
     (if js_gt score (Fin 80) then ''Good''
      else if js_gt score (Fin 60) then ''Moderate'' else ''Fair'')"

definition classifyBreathing ::
  "FeatureMap \<Rightarrow> abnormality item list \<Rightarrow> Classification \<times> abnormality item list" where
  "classifyBreathing fm abnormalityQueue =
     (let st = run_checks fm abnormalityQueue;
          score = abnormalityScore st;
          stability = Math_max (Fin 0) (js_sub (Fin 100) (js_mul (energyVariance fm) (Fin 15000)))
      in if isNormal st \<and> js_lt score (Fin 20) then
           (let isDeepBreathing = (js_gt (avgRMS fm) HIGH_AMPLITUDE_THRESHOLD \<and>
                                   js_lt (breathingRate fm) (Fin 14));
                isSlowBreathing = (js_lt (avgRMS fm) HIGH_AMPLITUDE_THRESHOLD \<and>
                                   js_lt (breathingRate fm) (Fin 12))
            in (\<lparr>status = Normal,
                 breathingType = Some (if isDeepBreathing then Deep
                                       else if isSlowBreathing then Slow else Regular),
                 abnormalityConfidence = None,
                 stabilityScore = Math_round stability,
                 lungComfort = lungComfort_of stability,
                 confidenceScore = Math_round (Math_max (Fin 75) (js_sub (Fin 100) score))\<rparr>,
                queue st))
         else
           (let q = (if isEmpty (queue st) \<and> js_gt score (Fin 0) then
                       enqueue (queue st)
                         \<lparr>abn_type = Irregular,
                          description = ''General breathing irregularity'',
                          percentage = Math_round (Math_min (Fin 100) score)\<rparr> score
                     else queue st)
            in (\<lparr>status = Abnormal,
                 breathingType = None,
                 abnormalityConfidence =
                   Some (Math_round (Math_min (Fin 100) (Math_max (Fin 30) score))),
                 stabilityScore = Math_round stability,
                 lungComfort = ''Needs Attention'',
                 confidenceScore = Math_round (Math_min (Fin 95) (js_add score (Fin 35)))\<rparr>,
                q)))"

definition getAll :: "abnormality item list \<Rightarrow> reported list" where
  "getAll items =
     map (\<lambda>i. \<lparr>abn_type = abn_type (element i), description = description (element i),
               percentage = percentage (element i), severity = priority i\<rparr>) items"

record AnalysisResult =
  features :: FeatureMap
  classification :: Classification
  abnormalities :: "reported list"
  windowFeatures_res :: "frame list"
  peaks :: "peak list"

definition mean_of :: "(frame \<Rightarrow> jsnum) \<Rightarrow> frame list \<Rightarrow> jsnum" where
  \<comment> \<open>\<open>ws.reduce((sum, w) => sum + f(w), 0) / ws.length\<close>\<close>
  "mean_of f ws = js_div (foldl (\<lambda>sum w. js_add sum (f w)) (Fin 0) ws) (num (length ws))"

definition analyzeFrames :: "jsnum list \<Rightarrow> nat \<Rightarrow> frame list \<Rightarrow> AnalysisResult" where
  \<comment> \<open>\<open>analyzeBreathing\<close> from Step 3 on, once the frames are there\<close>
  "analyzeFrames audioData sampleRate ws =
     (let avgE = mean_of energy ws;
          avgR = mean_of rms ws;
          avgZ = mean_of zcr ws;
          avgF = mean_of dominantFreq ws;
          var = mean_of (\<lambda>w. Math_pow2 (js_sub (energy w) avgE)) ws;
          envelope = map rms ws;
          pks = detectPeaks envelope (js_mul avgR (Fin 0.5));
          durationSeconds = js_div (num (length audioData)) (num sampleRate);
          rate = (if 1 < length pks
                  then js_mul (js_div (num (length pks)) durationSeconds) (Fin 60)
                  else Fin 12);
          fm = \<lparr>avgEnergy = avgE, avgRMS = avgR, avgZCR = avgZ, avgDominantFreq = avgF,
                energyVariance = var, breathingRate = rate, peakCount = length pks,
                windowFeatures = ws\<rparr>;
          (cls, q) = classifyBreathing fm []
      in \<lparr>features = fm, classification = cls, abnormalities = getAll q,
          windowFeatures_res = ws, peaks = pks\<rparr>)"

definition analyzeBreathing :: "jsnum list \<Rightarrow> nat \<Rightarrow> AnalysisResult option" where
  \<comment> \<open>\<open>None\<close>: the sliding-window loop does not end\<close>
  "analyzeBreathing audioData sampleRate =
     (let cleanedSignal = removeNoise audioData noiseThreshold_default;
          windowSize = sampleRate div 2;
          hopSize = windowSize div 2
      in map_option (analyzeFrames audioData sampleRate)
           (slidingWindowAnalysis cleanedSignal windowSize hopSize sampleRate))"

subsection \<open>Invariant of the circular buffer\<close>

text \<open>
  After the values \<open>xs\<close> have been pushed into a fresh buffer of capacity \<open>C\<close>: the
  write position is \<open>length xs mod C\<close>, and the slot \<open>k mod C\<close> holds the \<open>k\<close>-th pushed
  value for each of the last \<open>C\<close> pushes.
\<close>

definition cb_inv :: "nat \<Rightarrow> jsnum list \<Rightarrow> CircularBuffer \<Rightarrow> bool" where
  "cb_inv C xs b \<longleftrightarrow>
     size_cb b = C \<and> length (buffer b) = C \<and>
     tail b = Some (length xs mod C) \<and>
     count b = min (length xs) C \<and>
     head b = Some (if length xs \<le> C then 0 else length xs mod C) \<and>
     (\<forall>k. k < length xs \<and> length xs \<le> k + C \<longrightarrow> buffer b ! (k mod C) = xs ! k)"

subsection \<open>A sequence of insertions\<close>

text \<open>The queue after the insertions \<open>ins\<close>, in order, into an empty queue.\<close>

definition enqueue_all :: "('e \<times> jsnum) list \<Rightarrow> 'e item list" where
  "enqueue_all ins = foldl (\<lambda>items (e, p). enqueue items e p) [] ins"

subsection \<open>Invariant of the peak scan\<close>

text \<open>
  What holds of the accepted peaks \<open>r\<close> once the scan has passed the indices below \<open>m\<close>,
  with minimum distance \<open>d\<close>.
\<close>

definition peaks_inv :: "jsnum list \<Rightarrow> jsnum \<Rightarrow> nat \<Rightarrow> nat \<Rightarrow> peak list \<Rightarrow> bool" where
  "peaks_inv signal threshold d m r \<longleftrightarrow>
     (\<forall>p \<in> set r. 1 \<le> peak_index p \<and> peak_index p < m \<and>
        is_candidate signal threshold (peak_index p) \<and> peak_value p = signal ! peak_index p) \<and>
     sorted_wrt (\<lambda>p q. peak_index p + d < peak_index q) r \<and>
     (\<forall>i. i \<in> peak_index ` set r \<longleftrightarrow>
        1 \<le> i \<and> i < m \<and> is_candidate signal threshold i \<and>
        (\<forall>j \<in> peak_index ` set r. j < i \<longrightarrow> j + d < i))"

section \<open>Circular buffer: the last \<open>C\<close> values\<close>

lemma mod_distinct_window:
  fixes k n C :: nat
  assumes "k < n" "n < k + C"
  shows "k mod C \<noteq> n mod C"
proof
  assume "k mod C = n mod C"
  then have "C dvd n - k" using assms by (metis mod_eq_dvd_iff_nat less_imp_le)
  moreover have "0 < n - k" "n - k < C" using assms by auto
  ultimately show False by (meson dvd_imp_le not_less)
qed

lemma cb_inv_new:
  assumes "0 < C"
  shows "cb_inv C [] \<lparr>buffer = replicate C (Fin 0), size_cb = C, head = Some 0, tail = Some 0, count = 0\<rparr>"
  by (simp add: cb_inv_def)

lemma cb_inv_push:
  assumes C: "0 < C" and inv: "cb_inv C xs b"
  shows "cb_inv C (xs @ [v]) (push b v)"
proof -
  let ?n = "length xs"
  from inv have sz: "size_cb b = C" and len: "length (buffer b) = C"
    and tl: "tail b = Some (?n mod C)" and cnt: "count b = min ?n C"
    and hd: "head b = Some (if ?n \<le> C then 0 else ?n mod C)"
    and content: "\<And>k. k < ?n \<Longrightarrow> ?n \<le> k + C \<Longrightarrow> buffer b ! (k mod C) = xs ! k"
    by (auto simp: cb_inv_def)
  have buf: "buffer (push b v) = (buffer b)[?n mod C := v]"
    using C len tl by (simp add: push_def store_def Let_def)
  have tl': "tail (push b v) = Some (Suc ?n mod C)"
    using C sz tl by (simp add: push_def Let_def js_plus_def mod_Suc_eq)
  have sz': "size_cb (push b v) = C" using sz by (simp add: push_def Let_def)
  have cnt': "count (push b v) = min (Suc ?n) C"
    using sz cnt by (auto simp: push_def Let_def min_def)
  have hd': "head (push b v) = Some (if Suc ?n \<le> C then 0 else Suc ?n mod C)"
  proof (cases "?n < C")
    case True
    then show ?thesis using sz cnt hd by (simp add: push_def Let_def min_def)
  next
    case False
    then have "head (push b v) = js_mod (js_plus (head b) 1) C"
      using sz cnt by (simp add: push_def Let_def min_def)
    also have "\<dots> = Some (Suc ?n mod C)"
    proof (cases "?n = C")
      case True
      then show ?thesis using C hd by (simp add: js_plus_def mod_Suc)
    next
      case False
      with \<open>\<not> ?n < C\<close> have "C < ?n" by simp
      then show ?thesis using C hd by (simp add: js_plus_def mod_Suc_eq)
    qed
    finally show ?thesis using False by simp
  qed
  have content': "buffer (push b v) ! (k mod C) = (xs @ [v]) ! k"
    if "k < Suc ?n" "Suc ?n \<le> k + C" for k
  proof (cases "k = ?n")
    case True
    then show ?thesis using C len buf by simp
  next
    case False
    with that have k: "k < ?n" "?n < k + C" by auto
    then have "k mod C \<noteq> ?n mod C" by (rule mod_distinct_window)
    then have "buffer (push b v) ! (k mod C) = buffer b ! (k mod C)"
      using buf by simp
    also have "\<dots> = xs ! k" using k by (intro content) auto
    finally show ?thesis using k by (simp add: nth_append)
  qed
  show ?thesis
    unfolding cb_inv_def using sz' len buf tl' cnt' hd' content' by simp
qed

lemma cb_inv_pushArray:
  assumes "0 < C" "cb_inv C xs b"
  shows "cb_inv C (xs @ ys) (pushArray b ys)"
  using assms(2)
proof (induction ys arbitrary: xs b)
  case Nil
  then show ?case by (simp add: pushArray_def)
next
  case (Cons y ys)
  have "cb_inv C (xs @ [y]) (push b y)" using assms(1) Cons.prems by (rule cb_inv_push)
  from Cons.IH [OF this] show ?case by (simp add: pushArray_def)
qed

lemma cb_inv_toArray:
  assumes C: "0 < C" and inv: "cb_inv C xs b"
  shows "toArray b = drop (length xs - C) xs"
proof (rule nth_equalityI)
  show "length (toArray b) = length (drop (length xs - C) xs)"
    using inv by (auto simp: toArray_def cb_inv_def)
next
  fix i assume "i < length (toArray b)"
  then have i: "i < min (length xs) C" using inv by (simp add: toArray_def cb_inv_def)
  let ?n = "length xs"
  from inv have sz: "size_cb b = C" and len: "length (buffer b) = C"
    and cnt: "count b = min ?n C"
    and hd: "head b = Some (if ?n \<le> C then 0 else ?n mod C)"
    and content: "\<And>k. k < ?n \<Longrightarrow> ?n \<le> k + C \<Longrightarrow> buffer b ! (k mod C) = xs ! k"
    by (auto simp: cb_inv_def)
  have "toArray b ! i = load (buffer b) (js_mod (js_plus (head b) i) C)"
    using i cnt sz by (simp add: toArray_def)
  also have "\<dots> = buffer b ! ((?n - C + i) mod C)"
  proof (cases "?n \<le> C")
    case True
    then show ?thesis using C hd len i by (simp add: js_plus_def load_def)
  next
    case False
    then have "(?n mod C + i) mod C = (?n - C + i) mod C"
      by (metis add.commute le_add_diff_inverse2 mod_add_left_eq mod_add_self2 nat_le_linear add.assoc)
    then show ?thesis using C hd len False by (simp add: js_plus_def load_def)
  qed
  also have "\<dots> = xs ! (?n - C + i)" using i by (intro content) auto
  finally show "toArray b ! i = drop (length xs - C) xs ! i" using i by simp
qed

text \<open>
  C6. For a buffer of capacity \<open>C \<ge> 1\<close> and any pushed values \<open>xs\<close>, \<open>toArray\<close> is the
  last \<open>C\<close> values of \<open>xs\<close> in push order (all of \<open>xs\<close> while fewer than \<open>C\<close> were
  pushed), so its length is at most \<open>C\<close>, and exactly \<open>C\<close> once more than \<open>C\<close> values
  were pushed; a push into a full buffer drops the oldest value and appends the new one.
\<close>

theorem CircularBuffer_last_C:
  assumes "1 \<le> C" and "CircularBuffer_new maxLength (int C) = Inr b0"
  shows "toArray (pushArray b0 xs) = drop (length xs - C) xs \<and>
         length (toArray (pushArray b0 xs)) \<le> C \<and>
         (C < length xs \<longrightarrow> length (toArray (pushArray b0 xs)) = C) \<and>
         (C \<le> length xs \<longrightarrow>
            toArray (push (pushArray b0 xs) v) = tl (toArray (pushArray b0 xs)) @ [v])"
proof -
  have C: "0 < C" using assms(1) by simp
  have b0: "b0 = \<lparr>buffer = replicate C (Fin 0), size_cb = C, head = Some 0, tail = Some 0, count = 0\<rparr>"
    using assms(2) by (simp add: CircularBuffer_new_def split: if_splits)
  have inv: "cb_inv C xs (pushArray b0 xs)"
    using cb_inv_pushArray [OF C cb_inv_new [OF C], of xs] b0 by simp
  have eq: "toArray (pushArray b0 xs) = drop (length xs - C) xs"
    using cb_inv_toArray [OF C inv] .
  have inv': "cb_inv C (xs @ [v]) (push (pushArray b0 xs) v)"
    using cb_inv_push [OF C inv] .
  have eq': "toArray (push (pushArray b0 xs) v) = drop (length (xs @ [v]) - C) (xs @ [v])"
    using cb_inv_toArray [OF C inv'] .
  have "drop (length (xs @ [v]) - C) (xs @ [v]) = tl (drop (length xs - C) xs) @ [v]"
    if "C \<le> length xs"
  proof -
    have "length (xs @ [v]) - C = Suc (length xs - C)" using that by simp
    moreover have "drop (length xs - C) xs \<noteq> []" using that C by simp
    ultimately show ?thesis by (simp add: drop_Suc tl_drop)
  qed
  with eq eq' show ?thesis by auto
qed

theorem CircularBuffer_last_C_witness:
  "toArray (pushArray \<lparr>buffer = [Fin 0, Fin 0], size_cb = 2, head = Some 0, tail = Some 0, count = 0\<rparr>
      [Fin 1, Fin 2, Fin 3]) = [Fin 2, Fin 3] \<and>
   toArray (push (pushArray \<lparr>buffer = [Fin 0, Fin 0], size_cb = 2, head = Some 0, tail = Some 0, count = 0\<rparr>
      [Fin 1, Fin 2, Fin 3]) (Fin 4)) = [Fin 3, Fin 4]"
proof -
  have h1: "(1::nat) \<le> 2" by simp
  have h2: "CircularBuffer_new 4294967295 (int 2) =
     Inr \<lparr>buffer = [Fin 0, Fin 0], size_cb = 2, head = Some 0, tail = Some 0, count = 0\<rparr>"
    by (simp add: CircularBuffer_new_def numeral_2_eq_2)
  from CircularBuffer_last_C [OF h1 h2, of "[Fin 1, Fin 2, Fin 3]" "Fin 4"]
  show ?thesis by simp
qed

section \<open>Circular buffer: capacity 0\<close>

lemma zero_capacity_push:
  assumes "size_cb b = 0" "count b = 0" "buffer b = []"
  shows "size_cb (push b v) = 0 \<and> count (push b v) = 0 \<and> buffer (push b v) = []"
  using assms by (simp add: push_def Let_def store_def split: option.splits)

lemma zero_capacity_pushArray:
  assumes "size_cb b = 0" "count b = 0" "buffer b = []"
  shows "size_cb (pushArray b xs) = 0 \<and> count (pushArray b xs) = 0 \<and> buffer (pushArray b xs) = []"
  using assms
proof (induction xs arbitrary: b)
  case Nil
  then show ?case by (simp add: pushArray_def)
next
  case (Cons x xs)
  from zero_capacity_push [OF Cons.prems, of x] Cons.IH [of "push b x"]
  show ?case by (simp add: pushArray_def)
qed

theorem CircularBuffer_zero_capacity_counterexample:
  "CircularBuffer_new 4294967295 0 =
     Inr \<lparr>buffer = [], size_cb = 0, head = Some 0, tail = Some 0, count = 0\<rparr>"
  by (simp add: CircularBuffer_new_def)

text \<open>
  C5, as the code has it. Capacity 0 is not rejected: whatever the largest length of the
  engine, the constructor returns an empty buffer (no slot, count 0), and any pushes into
  it raise nothing and leave it empty.
\<close>

theorem CircularBuffer_new_accepts_zero:
  "\<exists>b. CircularBuffer_new maxLength 0 = Inr b \<and>
       size_cb b = 0 \<and> buffer b = [] \<and> count b = 0 \<and> toArray b = [] \<and>
       (\<forall>xs. count (pushArray b xs) = 0 \<and> toArray (pushArray b xs) = [])"
proof -
  let ?b = "\<lparr>buffer = [], size_cb = 0, head = Some 0, tail = Some 0, count = 0\<rparr>"
  have "count (pushArray ?b xs) = 0 \<and> toArray (pushArray ?b xs) = []" for xs
    using zero_capacity_pushArray [of ?b xs] by (simp add: toArray_def)
  moreover have "CircularBuffer_new maxLength 0 = Inr ?b" by (simp add: CircularBuffer_new_def)
  moreover have "toArray ?b = []" by (simp add: toArray_def)
  ultimately show ?thesis by auto
qed

theorem CircularBuffer_new_accepts_zero_witness:
  "CircularBuffer_new 4294967295 0 =
     Inr \<lparr>buffer = [], size_cb = 0, head = Some 0, tail = Some 0, count = 0\<rparr> \<and>
   toArray (pushArray \<lparr>buffer = [], size_cb = 0, head = Some 0, tail = Some 0, count = 0\<rparr>
     [Fin 1, Fin 2]) = []"
proof -
  from CircularBuffer_new_accepts_zero [of 4294967295] obtain b where
    b: "CircularBuffer_new 4294967295 0 = Inr b"
    and e: "\<forall>xs. count (pushArray b xs) = 0 \<and> toArray (pushArray b xs) = []"
    by blast
  from b have "b = \<lparr>buffer = [], size_cb = 0, head = Some 0, tail = Some 0, count = 0\<rparr>"
    by (simp add: CircularBuffer_new_def)
  with b e show ?thesis by simp
qed

section \<open>Priority queue\<close>

lemma js_lt_trans: "js_lt a b \<Longrightarrow> js_lt b c \<Longrightarrow> js_lt a c"
  by (cases a; cases b; cases c) auto

lemma js_lt_irrefl: "\<not> js_lt a a"
  by (cases a) auto

lemma enqueue_loop_split:
  "enqueue_loop it xs =
     takeWhile (\<lambda>x. \<not> js_gt (priority it) (priority x)) xs @
     it # dropWhile (\<lambda>x. \<not> js_gt (priority it) (priority x)) xs"
  by (induction xs) auto

lemma set_enqueue_loop: "set (enqueue_loop it xs) = insert it (set xs)"
  by (induction xs) auto

lemma enqueue_loop_sorted:
  assumes "sorted_wrt (\<lambda>a b. \<not> js_lt (priority a) (priority b)) xs"
  shows "sorted_wrt (\<lambda>a b. \<not> js_lt (priority a) (priority b)) (enqueue_loop it xs)"
  using assms
proof (induction xs)
  case Nil
  then show ?case by simp
next
  case (Cons x xs)
  show ?case
  proof (cases "js_gt (priority it) (priority x)")
    case True
    then have lt: "js_lt (priority x) (priority it)" by (simp add: js_gt_def)
    have "\<not> js_lt (priority it) (priority y)" if "y \<in> set (x # xs)" for y
    proof
      assume "js_lt (priority it) (priority y)"
      with lt have "js_lt (priority x) (priority y)" by (rule js_lt_trans)
      with that Cons.prems show False by (auto simp: js_lt_irrefl)
    qed
    with True Cons.prems show ?thesis by simp
  next
    case False
    with Cons show ?thesis by (auto simp: set_enqueue_loop js_gt_def)
  qed
qed

lemma enqueue_loop_stable:
  assumes "sorted_wrt (\<lambda>a b. \<not> js_lt (priority a) (priority b)) xs"
  shows "filter (\<lambda>i. priority i = p) (enqueue_loop it xs) =
         filter (\<lambda>i. priority i = p) xs @ (if priority it = p then [it] else [])"
  using assms
proof (induction xs)
  case Nil
  then show ?case by simp
next
  case (Cons x xs)
  show ?case
  proof (cases "js_gt (priority it) (priority x)")
    case True
    then have lt: "js_lt (priority x) (priority it)" by (simp add: js_gt_def)
    have "priority y \<noteq> priority it" if "y \<in> set (x # xs)" for y
    proof
      assume "priority y = priority it"
      with lt have "js_lt (priority x) (priority y)" by simp
      with that Cons.prems show False by (auto simp: js_lt_irrefl)
    qed
    then have "filter (\<lambda>i. priority i = priority it) (x # xs) = []"
      by (simp only: filter_empty_conv) blast
    with True show ?thesis by auto
  next
    case False
    with Cons show ?thesis by auto
  qed
qed

lemma enqueue_all_snoc: "enqueue_all (ins @ [(e, p)]) = enqueue (enqueue_all ins) e p"
  by (simp add: enqueue_all_def)

lemma enqueue_all_sorted:
  "sorted_wrt (\<lambda>a b. \<not> js_lt (priority a) (priority b)) (enqueue_all ins)"
proof (induction ins rule: rev_induct)
  case Nil
  then show ?case by (simp add: enqueue_all_def)
next
  case (snoc x xs)
  obtain e p where x: "x = (e, p)" by (cases x)
  show ?case unfolding x enqueue_all_snoc enqueue_def
    using snoc by (rule enqueue_loop_sorted)
qed

lemma set_enqueue_all:
  "set (enqueue_all ins) = (\<lambda>(e, p). \<lparr>element = e, priority = p\<rparr>) ` set ins"
proof (induction ins rule: rev_induct)
  case Nil
  then show ?case by (simp add: enqueue_all_def)
next
  case (snoc x xs)
  obtain e p where x: "x = (e, p)" by (cases x)
  show ?case unfolding x enqueue_all_snoc enqueue_def set_enqueue_loop
    using snoc by auto
qed

lemma enqueue_all_stable:
  "filter (\<lambda>i. priority i = p) (enqueue_all ins) =
   map (\<lambda>(e, p). \<lparr>element = e, priority = p\<rparr>) (filter (\<lambda>(e, p'). p' = p) ins)"
proof (induction ins rule: rev_induct)
  case Nil
  then show ?case by (simp add: enqueue_all_def)
next
  case (snoc x xs)
  obtain e p' where x: "x = (e, p')" by (cases x)
  show ?case unfolding x enqueue_all_snoc enqueue_def
    using enqueue_loop_stable [OF enqueue_all_sorted, of p "\<lparr>element = e, priority = p'\<rparr>" xs] snoc
    by simp
qed

text \<open>
  C7. After any sequence of insertions into an empty queue, no item is followed by an
  item of strictly higher priority; when no priority is NaN this is: the priorities are
  non-increasing (\<open>>=\<close>). The items of any one priority are the inserted events of that
  priority, in insertion order. An insertion puts the new item immediately before the
  first item of strictly lower priority (at the end when there is none).
\<close>

theorem enqueue_sorted_stable:
  "sorted_wrt (\<lambda>a b. \<not> js_lt (priority a) (priority b)) (enqueue_all ins) \<and>
   ((\<forall>x \<in> set ins. snd x \<noteq> NaN) \<longrightarrow>
      sorted_wrt (\<lambda>a b. js_ge (priority a) (priority b)) (enqueue_all ins)) \<and>
   (\<forall>q. filter (\<lambda>i. priority i = q) (enqueue_all ins) =
        map (\<lambda>(e, p). \<lparr>element = e, priority = p\<rparr>) (filter (\<lambda>(e, p). p = q) ins)) \<and>
   enqueue items e p =
     takeWhile (\<lambda>x. \<not> js_lt (priority x) p) items @
     \<lparr>element = e, priority = p\<rparr> # dropWhile (\<lambda>x. \<not> js_lt (priority x) p) items"
proof -
  have ge: "sorted_wrt (\<lambda>a b. js_ge (priority a) (priority b)) (enqueue_all ins)"
    if "\<forall>x \<in> set ins. snd x \<noteq> NaN"
  proof (rule sorted_wrt_mono_rel [OF _ enqueue_all_sorted])
    fix a b assume "a \<in> set (enqueue_all ins)" "b \<in> set (enqueue_all ins)"
      and "\<not> js_lt (priority a) (priority b)"
    with that show "js_ge (priority a) (priority b)"
      by (auto simp: set_enqueue_all js_ge_def)
  qed
  have "enqueue items e p =
     takeWhile (\<lambda>x. \<not> js_lt (priority x) p) items @
     \<lparr>element = e, priority = p\<rparr> # dropWhile (\<lambda>x. \<not> js_lt (priority x) p) items"
    using enqueue_loop_split [of "\<lparr>element = e, priority = p\<rparr>" items]
    by (simp add: enqueue_def js_gt_def)
  with ge enqueue_all_sorted enqueue_all_stable show ?thesis by blast
qed

theorem enqueue_sorted_stable_witness:
  "enqueue_all [(''a'', Fin 1), (''b'', Fin 3), (''c'', Fin 1), (''d'', Fin 2)] =
     [\<lparr>element = ''b'', priority = Fin 3\<rparr>, \<lparr>element = ''d'', priority = Fin 2\<rparr>,
      \<lparr>element = ''a'', priority = Fin 1\<rparr>, \<lparr>element = ''c'', priority = Fin 1\<rparr>] \<and>
   sorted_wrt (\<lambda>a b. js_ge (priority a) (priority b))
     (enqueue_all [(''a'', Fin 1), (''b'', Fin 3), (''c'', Fin 1), (''d'', Fin 2)]) \<and>
   filter (\<lambda>i. priority i = Fin 1)
     (enqueue_all [(''a'', Fin 1), (''b'', Fin 3), (''c'', Fin 1), (''d'', Fin 2)]) =
     [\<lparr>element = ''a'', priority = Fin 1\<rparr>, \<lparr>element = ''c'', priority = Fin 1\<rparr>]"
proof -
  have h: "\<forall>x \<in> set [(''a'', Fin 1), (''b'', Fin 3), (''c'', Fin 1), (''d'', Fin 2)]. snd x \<noteq> NaN"
    by simp
  have v: "enqueue_all [(''a'', Fin 1), (''b'', Fin 3), (''c'', Fin 1), (''d'', Fin 2)] =
     [\<lparr>element = ''b'', priority = Fin 3\<rparr>, \<lparr>element = ''d'', priority = Fin 2\<rparr>,
      \<lparr>element = ''a'', priority = Fin 1\<rparr>, \<lparr>element = ''c'', priority = Fin 1\<rparr>]"
    by (simp add: enqueue_all_def enqueue_def js_gt_def)
  have "(\<forall>x \<in> set [(''a'', Fin 1), (''b'', Fin 3), (''c'', Fin 1), (''d'', Fin 2)]. snd x \<noteq> NaN) \<longrightarrow>
     sorted_wrt (\<lambda>a b. js_ge (priority a) (priority b))
       (enqueue_all [(''a'', Fin 1), (''b'', Fin 3), (''c'', Fin 1), (''d'', Fin 2)])"
    by (rule conjunct1 [OF conjunct2 [OF enqueue_sorted_stable]])
  then have "sorted_wrt (\<lambda>a b. js_ge (priority a) (priority b))
     (enqueue_all [(''a'', Fin 1), (''b'', Fin 3), (''c'', Fin 1), (''d'', Fin 2)])"
    using h by (rule mp)
  then show ?thesis using v by simp
qed

section \<open>Peak detection\<close>

lemma gap_sorted_last:
  assumes "sorted_wrt (\<lambda>p q. peak_index p + d < peak_index q) r" "p \<in> set r"
  shows "peak_index p \<le> peak_index (last r)"
  using assms
proof (induction r rule: rev_induct)
  case Nil
  then show ?case by simp
next
  case (snoc x xs)
  then show ?case by (auto simp: sorted_wrt_append)
qed

lemma peaks_inv_step:
  assumes inv: "peaks_inv s t d m r" and m: "1 \<le> m"
  shows "peaks_inv s t d (Suc m) (peak_step s t d r m)"
proof -
  from inv have elems: "\<And>p. p \<in> set r \<Longrightarrow> 1 \<le> peak_index p \<and> peak_index p < m \<and>
        is_candidate s t (peak_index p) \<and> peak_value p = s ! peak_index p"
    and srt: "sorted_wrt (\<lambda>p q. peak_index p + d < peak_index q) r"
    and greedy: "\<And>i. i \<in> peak_index ` set r \<longleftrightarrow>
        1 \<le> i \<and> i < m \<and> is_candidate s t i \<and>
        (\<forall>j \<in> peak_index ` set r. j < i \<longrightarrow> j + d < i)"
    unfolding peaks_inv_def by blast+
  have below: "j < m" if "j \<in> peak_index ` set r" for j using that elems by auto
  let ?acc = "is_candidate s t m \<and> (r = [] \<or> peak_index (last r) + d < m)"
  have step: "peak_step s t d r m =
      (if ?acc then r @ [\<lparr>peak_index = m, peak_value = s ! m\<rparr>] else r)"
    by (auto simp: peak_step_def)
  have all_gap: "(\<forall>j \<in> peak_index ` set r. j + d < m) \<longleftrightarrow> (r = [] \<or> peak_index (last r) + d < m)"
  proof (cases "r = []")
    case True
    then show ?thesis by simp
  next
    case False
    then have "last r \<in> set r" by simp
    moreover have "peak_index p \<le> peak_index (last r)" if "p \<in> set r" for p
      using gap_sorted_last [OF srt that] .
    ultimately show ?thesis using False by (fastforce simp: image_iff)
  qed
  show ?thesis
  proof (cases ?acc)
    case True
    then have r': "peak_step s t d r m = r @ [\<lparr>peak_index = m, peak_value = s ! m\<rparr>]"
      using step by simp
    have gapm: "\<And>j. j \<in> peak_index ` set r \<Longrightarrow> j + d < m" using all_gap True by blast
    have 1: "\<forall>p \<in> set (r @ [\<lparr>peak_index = m, peak_value = s ! m\<rparr>]).
        1 \<le> peak_index p \<and> peak_index p < Suc m \<and>
        is_candidate s t (peak_index p) \<and> peak_value p = s ! peak_index p"
      using elems m True by (auto simp: less_Suc_eq)
    have 2: "sorted_wrt (\<lambda>p q. peak_index p + d < peak_index q)
        (r @ [\<lparr>peak_index = m, peak_value = s ! m\<rparr>])"
      using srt gapm by (auto simp: sorted_wrt_append)
    have 3: "i \<in> peak_index ` set (r @ [\<lparr>peak_index = m, peak_value = s ! m\<rparr>]) \<longleftrightarrow>
        1 \<le> i \<and> i < Suc m \<and> is_candidate s t i \<and>
        (\<forall>j \<in> peak_index ` set (r @ [\<lparr>peak_index = m, peak_value = s ! m\<rparr>]). j < i \<longrightarrow> j + d < i)"
      for i
    proof (cases "i = m")
      case True
      then show ?thesis using \<open>?acc\<close> m gapm by auto
    next
      case False
      have "i \<in> peak_index ` set (r @ [\<lparr>peak_index = m, peak_value = s ! m\<rparr>]) \<longleftrightarrow>
            i \<in> peak_index ` set r" using False by auto
      also have "\<dots> \<longleftrightarrow> 1 \<le> i \<and> i < m \<and> is_candidate s t i \<and>
        (\<forall>j \<in> peak_index ` set r. j < i \<longrightarrow> j + d < i)" by (rule greedy)
      also have "\<dots> \<longleftrightarrow> 1 \<le> i \<and> i < Suc m \<and> is_candidate s t i \<and>
        (\<forall>j \<in> peak_index ` set (r @ [\<lparr>peak_index = m, peak_value = s ! m\<rparr>]). j < i \<longrightarrow> j + d < i)"
        using False by (auto simp: less_Suc_eq)
      finally show ?thesis .
    qed
    show ?thesis unfolding peaks_inv_def r' using 1 2 3 by blast
  next
    case False
    then have r': "peak_step s t d r m = r" using step by simp
    have 1: "\<forall>p \<in> set r.
        1 \<le> peak_index p \<and> peak_index p < Suc m \<and>
        is_candidate s t (peak_index p) \<and> peak_value p = s ! peak_index p"
      using elems by (auto simp: less_Suc_eq)
    have notm: "\<not> (is_candidate s t m \<and> (\<forall>j \<in> peak_index ` set r. j < m \<longrightarrow> j + d < m))"
      using False all_gap below by blast
    have 3: "i \<in> peak_index ` set r \<longleftrightarrow>
        1 \<le> i \<and> i < Suc m \<and> is_candidate s t i \<and>
        (\<forall>j \<in> peak_index ` set r. j < i \<longrightarrow> j + d < i)" for i
    proof (cases "i = m")
      case True
      then show ?thesis using notm below by blast
    next
      case False
      then show ?thesis using greedy [of i] by (auto simp: less_Suc_eq)
    qed
    show ?thesis unfolding peaks_inv_def r' using 1 srt 3 by blast
  qed
qed

lemma peaks_inv_upto:
  "peaks_inv s t d (Suc m) (foldl (peak_step s t d) [] [1..<Suc m])"
proof (induction m)
  case 0
  then show ?case by (simp add: peaks_inv_def)
next
  case (Suc m)
  have "[1..<Suc (Suc m)] = [1..<Suc m] @ [Suc m]" by simp
  then have "foldl (peak_step s t d) [] [1..<Suc (Suc m)] =
        peak_step s t d (foldl (peak_step s t d) [] [1..<Suc m]) (Suc m)"
    by (simp only: foldl_append foldl.simps)
  then show ?case using peaks_inv_step [OF Suc.IH] by simp
qed

lemma detectPeaks_inv:
  "peaks_inv s t (length s div 20) (length s - 1) (detectPeaks s t)"
proof (cases "length s - 1")
  case 0
  then show ?thesis by (simp add: detectPeaks_def peaks_inv_def)
next
  case (Suc m)
  then show ?thesis using peaks_inv_upto [of s t "length s div 20" m]
    by (simp add: detectPeaks_def)
qed

lemma foldl_no_candidate:
  assumes "\<forall>i \<in> set js. \<not> is_candidate s t i"
  shows "foldl (peak_step s t d) acc js = acc"
  using assms by (induction js arbitrary: acc) (auto simp: peak_step_def)

lemma detectPeaks_unimodal:
  assumes m: "0 < m" "m + 1 < length s"
    and up: "\<forall>i<m. js_lt (s ! i) (s ! (i + 1))"
    and down: "\<forall>i. m \<le> i \<and> i + 1 < length s \<longrightarrow> js_gt (s ! i) (s ! (i + 1))"
    and above: "js_gt (s ! m) t"
  shows "detectPeaks s t = [\<lparr>peak_index = m, peak_value = s ! m\<rparr>]"
proof -
  have asym: "\<not> (js_lt a b \<and> js_lt b a)" for a b
    using js_lt_trans [of a b a] js_lt_irrefl [of a] by blast
  have split: "[1..<length s - 1] = [1..<m] @ m # [Suc m..<length s - 1]"
  proof -
    have "[1..<m + (length s - 1 - m)] = [1..<m] @ [m..<m + (length s - 1 - m)]"
      using m by (intro upt_add_eq_append) auto
    then have "[1..<length s - 1] = [1..<m] @ [m..<length s - 1]"
      using m by simp
    moreover have "[m..<length s - 1] = m # [Suc m..<length s - 1]"
      using m by (intro upt_conv_Cons) auto
    ultimately show ?thesis by simp
  qed
  have before: "\<forall>i \<in> set [1..<m]. \<not> is_candidate s t i"
  proof
    fix i assume "i \<in> set [1..<m]"
    then have "js_lt (s ! i) (s ! (i + 1))" using up by simp
    then show "\<not> is_candidate s t i" using asym by (auto simp: is_candidate_def js_gt_def)
  qed
  have after: "\<forall>i \<in> set [Suc m..<length s - 1]. \<not> is_candidate s t i"
  proof
    fix i assume "i \<in> set [Suc m..<length s - 1]"
    then have "m \<le> i - 1 \<and> (i - 1) + 1 < length s" "i - 1 + 1 = i" by auto
    then have "js_gt (s ! (i - 1)) (s ! i)" using down by metis
    then show "\<not> is_candidate s t i" using asym by (auto simp: is_candidate_def js_gt_def)
  qed
  have cand: "is_candidate s t m"
  proof -
    have "js_lt (s ! (m - 1)) (s ! m)" using up m by (metis Suc_pred' add.commute less_Suc_eq plus_1_eq_Suc)
    moreover have "js_gt (s ! m) (s ! (m + 1))" using down m by simp
    ultimately show ?thesis using above by (simp add: is_candidate_def js_gt_def)
  qed
  have "detectPeaks s t =
      foldl (peak_step s t (length s div 20))
        (peak_step s t (length s div 20) (foldl (peak_step s t (length s div 20)) [] [1..<m]) m)
        [Suc m..<length s - 1]"
    unfolding detectPeaks_def Let_def split by simp
  also have "\<dots> = peak_step s t (length s div 20) [] m"
    using foldl_no_candidate [OF before] foldl_no_candidate [OF after] by simp
  also have "\<dots> = [\<lparr>peak_index = m, peak_value = s ! m\<rparr>]"
    using cand by (simp add: peak_step_def)
  finally show ?thesis .
qed


lemma sorted_wrt_either:
  assumes "sorted_wrt P xs" "p \<in> set xs" "q \<in> set xs" "p \<noteq> q"
  shows "P p q \<or> P q p"
proof -
  from assms(2,3) obtain i j where ij: "i < length xs" "xs ! i = p" "j < length xs" "xs ! j = q"
    by (auto simp: in_set_conv_nth)
  with assms(4) have "i < j \<or> j < i" by (cases i j rule: linorder_cases) auto
  then show ?thesis using assms(1) ij by (auto simp: sorted_wrt_iff_nth_less)
qed

text \<open>
  C8. The peaks returned by \<open>detectPeaks\<close> are in increasing index order; each is at an
  interior index, carries the sample there, and that sample is strictly greater than both
  neighbours and than the threshold; any two of them are at least
  \<open>floor(length / 20)\<close> indices apart (in fact more). The accepted indices are exactly
  the greedy left-to-right choice: a candidate is accepted iff every peak accepted before
  it lies more than the minimum distance back. A signal that strictly increases up to an
  interior index \<open>m\<close> and strictly decreases after it, with the sample at \<open>m\<close> above the
  threshold, gives the one peak at \<open>m\<close>.
\<close>

theorem detectPeaks_properties:
  "sorted_wrt (\<lambda>p q. peak_index p < peak_index q) (detectPeaks s t) \<and>
   (\<forall>p \<in> set (detectPeaks s t).
      1 \<le> peak_index p \<and> peak_index p + 1 < length s \<and>
      peak_value p = s ! peak_index p \<and>
      js_gt (s ! peak_index p) (s ! (peak_index p - 1)) \<and>
      js_gt (s ! peak_index p) (s ! (peak_index p + 1)) \<and>
      js_gt (s ! peak_index p) t) \<and>
   (\<forall>p \<in> set (detectPeaks s t). \<forall>q \<in> set (detectPeaks s t). p \<noteq> q \<longrightarrow>
      int (length s div 20) \<le> \<bar>int (peak_index p) - int (peak_index q)\<bar>) \<and>
   (\<forall>i. i \<in> peak_index ` set (detectPeaks s t) \<longleftrightarrow>
      1 \<le> i \<and> i + 1 < length s \<and> is_candidate s t i \<and>
      (\<forall>j \<in> peak_index ` set (detectPeaks s t). j < i \<longrightarrow> j + length s div 20 < i)) \<and>
   (0 < m \<and> m + 1 < length s \<and>
    (\<forall>i<m. js_lt (s ! i) (s ! (i + 1))) \<and>
    (\<forall>i. m \<le> i \<and> i + 1 < length s \<longrightarrow> js_gt (s ! i) (s ! (i + 1))) \<and>
    js_gt (s ! m) t \<longrightarrow>
    detectPeaks s t = [\<lparr>peak_index = m, peak_value = s ! m\<rparr>])"
proof -
  let ?d = "length s div 20"
  let ?r = "detectPeaks s t"
  have inv: "peaks_inv s t ?d (length s - 1) ?r" by (rule detectPeaks_inv)
  then have elems: "\<And>p. p \<in> set ?r \<Longrightarrow> 1 \<le> peak_index p \<and> peak_index p < length s - 1 \<and>
        is_candidate s t (peak_index p) \<and> peak_value p = s ! peak_index p"
    and srt: "sorted_wrt (\<lambda>p q. peak_index p + ?d < peak_index q) ?r"
    and greedy: "\<And>i. i \<in> peak_index ` set ?r \<longleftrightarrow>
        1 \<le> i \<and> i < length s - 1 \<and> is_candidate s t i \<and>
        (\<forall>j \<in> peak_index ` set ?r. j < i \<longrightarrow> j + ?d < i)"
    unfolding peaks_inv_def by blast+
  have 1: "sorted_wrt (\<lambda>p q. peak_index p < peak_index q) ?r"
    by (rule sorted_wrt_mono_rel [OF _ srt]) simp
  have 2: "\<forall>p \<in> set ?r.
      1 \<le> peak_index p \<and> peak_index p + 1 < length s \<and>
      peak_value p = s ! peak_index p \<and>
      js_gt (s ! peak_index p) (s ! (peak_index p - 1)) \<and>
      js_gt (s ! peak_index p) (s ! (peak_index p + 1)) \<and>
      js_gt (s ! peak_index p) t"
  proof
    fix p assume "p \<in> set ?r"
    from elems [OF this] show "1 \<le> peak_index p \<and> peak_index p + 1 < length s \<and>
      peak_value p = s ! peak_index p \<and>
      js_gt (s ! peak_index p) (s ! (peak_index p - 1)) \<and>
      js_gt (s ! peak_index p) (s ! (peak_index p + 1)) \<and>
      js_gt (s ! peak_index p) t"
      by (auto simp: is_candidate_def)
  qed
  have 3: "\<forall>p \<in> set ?r. \<forall>q \<in> set ?r. p \<noteq> q \<longrightarrow>
      int ?d \<le> \<bar>int (peak_index p) - int (peak_index q)\<bar>"
  proof (intro ballI impI)
    fix p q assume "p \<in> set ?r" "q \<in> set ?r" "p \<noteq> q"
    from sorted_wrt_either [OF srt this]
    show "int ?d \<le> \<bar>int (peak_index p) - int (peak_index q)\<bar>" by auto
  qed
  have 4: "\<forall>i. i \<in> peak_index ` set ?r \<longleftrightarrow>
      1 \<le> i \<and> i + 1 < length s \<and> is_candidate s t i \<and>
      (\<forall>j \<in> peak_index ` set ?r. j < i \<longrightarrow> j + ?d < i)"
  proof
    fix i
    have "i < length s - 1 \<longleftrightarrow> i + 1 < length s" by auto
    then show "i \<in> peak_index ` set ?r \<longleftrightarrow>
      1 \<le> i \<and> i + 1 < length s \<and> is_candidate s t i \<and>
      (\<forall>j \<in> peak_index ` set ?r. j < i \<longrightarrow> j + ?d < i)"
      using greedy [of i] by simp
  qed
  have 5: "0 < m \<and> m + 1 < length s \<and>
    (\<forall>i<m. js_lt (s ! i) (s ! (i + 1))) \<and>
    (\<forall>i. m \<le> i \<and> i + 1 < length s \<longrightarrow> js_gt (s ! i) (s ! (i + 1))) \<and>
    js_gt (s ! m) t \<longrightarrow>
    ?r = [\<lparr>peak_index = m, peak_value = s ! m\<rparr>]"
    using detectPeaks_unimodal [of m s t] by blast
  from 1 2 3 4 5 show ?thesis by (intro conjI)
qed

theorem detectPeaks_properties_witness:
  "detectPeaks [Fin 0, Fin 1, Fin 3, Fin 2, Fin 1] (Fin (1 / 2)) =
     [\<lparr>peak_index = 2, peak_value = Fin 3\<rparr>]"
proof -
  let ?s = "[Fin 0, Fin 1, Fin 3, Fin 2, Fin 1]"
  have up: "\<forall>i<2. js_lt (?s ! i) (?s ! (i + 1))"
    by (simp add: numeral_2_eq_2 less_Suc_eq)
  have down: "\<forall>i. 2 \<le> i \<and> i + 1 < length ?s \<longrightarrow> js_gt (?s ! i) (?s ! (i + 1))"
  proof (intro allI impI)
    fix i :: nat assume "2 \<le> i \<and> i + 1 < length ?s"
    then have "i = 2 \<or> i = 3" by auto
    then show "js_gt (?s ! i) (?s ! (i + 1))" by (auto simp: js_gt_def numeral_3_eq_3)
  qed
  have hyp: "0 < (2::nat) \<and> 2 + 1 < length ?s \<and>
    (\<forall>i<2. js_lt (?s ! i) (?s ! (i + 1))) \<and>
    (\<forall>i. 2 \<le> i \<and> i + 1 < length ?s \<longrightarrow> js_gt (?s ! i) (?s ! (i + 1))) \<and>
    js_gt (?s ! 2) (Fin (1 / 2))"
    using up down by (simp add: js_gt_def)
  have "0 < (2::nat) \<and> 2 + 1 < length ?s \<and>
    (\<forall>i<2. js_lt (?s ! i) (?s ! (i + 1))) \<and>
    (\<forall>i. 2 \<le> i \<and> i + 1 < length ?s \<longrightarrow> js_gt (?s ! i) (?s ! (i + 1))) \<and>
    js_gt (?s ! 2) (Fin (1 / 2)) \<longrightarrow>
    detectPeaks ?s (Fin (1 / 2)) = [\<lparr>peak_index = 2, peak_value = ?s ! 2\<rparr>]"
    using detectPeaks_properties [of ?s "Fin (1 / 2)" 2] by (elim conjE)
  from mp [OF this hyp] show ?thesis by simp
qed

section \<open>Zero-crossing rate of a degenerate frame\<close>

theorem calculateZCR_single_sample_counterexample:
  "calculateZCR [Fin 1] = NaN \<and> calculateZCR [Fin 1] \<noteq> Fin 0"
  by (simp add: calculateZCR_def num_def inf_signed_def)

text \<open>
  C4, as the code has it. \<open>calculateZCR\<close> has no guard on the frame length. For an
  empty frame it returns \<open>0 / (-1)\<close>, which is zero; for a frame of one sample it returns
  \<open>0 / 0\<close>, which is NaN. Neither raises.
\<close>

theorem calculateZCR_degenerate:
  "length signal \<le> 1 \<Longrightarrow> calculateZCR signal = (if signal = [] then Fin 0 else NaN)"
proof (cases signal)
  case Nil
  then show ?thesis by (simp add: calculateZCR_def num_def)
next
  case (Cons x xs)
  assume "length signal \<le> 1"
  with Cons have "xs = []" by simp
  with Cons show ?thesis by (simp add: calculateZCR_def num_def inf_signed_def)
qed

theorem calculateZCR_degenerate_witness:
  "calculateZCR [] = Fin 0 \<and> calculateZCR [Fin 5] = NaN"
  using calculateZCR_degenerate [of "[]"] calculateZCR_degenerate [of "[Fin 5]"] by simp

section \<open>Noise gate\<close>







section \<open>Classifier: breathing type\<close>

lemmas classifier_defs =
  classifyBreathing_def run_checks_def check_zcr_def check_variance_def check_rate_def
  check_signal_def check_spikes_def energySpikes_def lungComfort_of_def
  NORMAL_ZCR_MAX_def NORMAL_VARIANCE_MAX_def NORMAL_BREATHING_RATE_MIN_def
  NORMAL_BREATHING_RATE_MAX_def HIGH_AMPLITUDE_THRESHOLD_def MIN_SIGNAL_THRESHOLD_def
  js_gt_def isEmpty_def

theorem breathingType_boundary_counterexample:
  "status (fst (classifyBreathing
      \<lparr>avgEnergy = Fin 0.0036, avgRMS = Fin 0.06, avgZCR = Fin 0, avgDominantFreq = Fin 0,
       energyVariance = Fin 0, breathingRate = Fin 11, peakCount = 11,
       windowFeatures = []\<rparr> [])) = Normal \<and>
   breathingType (fst (classifyBreathing
      \<lparr>avgEnergy = Fin 0.0036, avgRMS = Fin 0.06, avgZCR = Fin 0, avgDominantFreq = Fin 0,
       energyVariance = Fin 0, breathingRate = Fin 11, peakCount = 11,
       windowFeatures = []\<rparr> [])) = Some Regular"
  by (simp add: classifier_defs Let_def)

text \<open>
  C10, as the code has it. Whenever the classifier returns status normal, the breathing
  type is deep if \<open>avgRMS > 0.06\<close> and \<open>breathingRate < 14\<close>; otherwise slow if
  \<open>avgRMS < 0.06\<close> (strictly) and \<open>breathingRate < 12\<close>; otherwise regular.
\<close>

theorem breathingType_rule:
  "status (fst (classifyBreathing fm q)) = Normal \<Longrightarrow>
   breathingType (fst (classifyBreathing fm q)) =
     Some (if js_gt (avgRMS fm) (Fin 0.06) \<and> js_lt (breathingRate fm) (Fin 14) then Deep
           else if js_lt (avgRMS fm) (Fin 0.06) \<and> js_lt (breathingRate fm) (Fin 12) then Slow
           else Regular)"
  by (simp add: classifyBreathing_def HIGH_AMPLITUDE_THRESHOLD_def Let_def split: if_splits)

theorem breathingType_rule_witness:
  "breathingType (fst (classifyBreathing
      \<lparr>avgEnergy = Fin 0.0025, avgRMS = Fin 0.05, avgZCR = Fin 0, avgDominantFreq = Fin 0,
       energyVariance = Fin 0, breathingRate = Fin 11, peakCount = 11,
       windowFeatures = []\<rparr> [])) = Some Slow \<and>
   breathingType (fst (classifyBreathing
      \<lparr>avgEnergy = Fin 0.01, avgRMS = Fin 0.1, avgZCR = Fin 0, avgDominantFreq = Fin 0,
       energyVariance = Fin 0, breathingRate = Fin 13, peakCount = 13,
       windowFeatures = []\<rparr> [])) = Some Deep"
proof -
  let ?a = "\<lparr>avgEnergy = Fin 0.0025, avgRMS = Fin 0.05, avgZCR = Fin 0, avgDominantFreq = Fin 0,
       energyVariance = Fin 0, breathingRate = Fin 11, peakCount = 11,
       windowFeatures = []\<rparr>"
  let ?b = "\<lparr>avgEnergy = Fin 0.01, avgRMS = Fin 0.1, avgZCR = Fin 0, avgDominantFreq = Fin 0,
       energyVariance = Fin 0, breathingRate = Fin 13, peakCount = 13,
       windowFeatures = []\<rparr>"
  have a: "status (fst (classifyBreathing ?a [])) = Normal"
    by (simp add: classifier_defs Let_def)
  have b: "status (fst (classifyBreathing ?b [])) = Normal"
    by (simp add: classifier_defs Let_def)
  from breathingType_rule [OF a] breathingType_rule [OF b] show ?thesis
    by (simp add: js_gt_def)
qed

section \<open>Sliding window analysis\<close>

lemma frame_count_iff:
  assumes "0 < h"
  shows "k < frame_count len w h \<longleftrightarrow> k * h + w < len"
proof (cases "len \<le> w")
  case True
  then show ?thesis by (simp add: frame_count_def)
next
  case False
  then have "k < frame_count len w h \<longleftrightarrow> k \<le> (len - w - 1) div h"
    by (simp add: frame_count_def less_Suc_eq_le)
  also have "\<dots> \<longleftrightarrow> k * h \<le> len - w - 1"
    using assms by (simp add: less_eq_div_iff_mult_less_eq)
  also have "\<dots> \<longleftrightarrow> k * h + w < len" using False by auto
  finally show ?thesis .
qed

lemma sw_loop_stop:
  assumes "length signal \<le> start + w"
  shows "sw_loop signal w h sr start acc = Some acc"
  using assms by (subst sw_loop.simps) simp

lemma sw_loop_from:
  assumes h: "0 < h" and j: "j \<le> frame_count (length signal) w h"
  shows "sw_loop signal w h sr (j * h) acc =
         Some (acc @ map (frame_at signal w sr)
                 (map (\<lambda>k. k * h) [j..<frame_count (length signal) w h]))"
  using j
proof (induction j arbitrary: acc rule: inc_induct)
  case base
  have "\<not> frame_count (length signal) w h * h + w < length signal"
    using frame_count_iff [OF h, of "frame_count (length signal) w h" "length signal" w] by simp
  then show ?case by (simp add: sw_loop_stop)
next
  case (step k)
  have "k * h + w < length signal" using frame_count_iff [OF h] step.hyps(2) by blast
  then have "int (k * h) + int w < int (length signal)"
    by (metis of_nat_add of_nat_less_iff)
  then have c: "int (k * h) < int (length signal) - int w" by linarith
  have n: "k * h + h = Suc k * h" by simp
  have "sw_loop signal w h sr (k * h) acc =
        sw_loop signal w h sr (Suc k * h) (acc @ [frame_at signal w sr (k * h)])"
    by (subst sw_loop.simps) (simp only: c if_True n)
  also have "\<dots> = Some ((acc @ [frame_at signal w sr (k * h)]) @ map (frame_at signal w sr)
                 (map (\<lambda>k. k * h) [Suc k..<frame_count (length signal) w h]))"
    by (rule step.IH)
  also have "\<dots> = Some (acc @ map (frame_at signal w sr)
                 (map (\<lambda>k. k * h) [k..<frame_count (length signal) w h]))"
    using step.hyps(2) by (simp add: upt_conv_Cons)
  finally show ?case .
qed

lemma slidingWindowAnalysis_eq:
  assumes "0 < h"
  shows "slidingWindowAnalysis signal w h sr =
         Some (map (frame_at signal w sr) (map (\<lambda>k. k * h) [0..<frame_count (length signal) w h]))"
  using sw_loop_from [OF assms, of 0 signal w sr "[]"] by (simp add: slidingWindowAnalysis_def)

lemma slidingWindowAnalysis_short:
  assumes "length signal \<le> w"
  shows "slidingWindowAnalysis signal w h sr = Some []"
  using assms by (simp add: slidingWindowAnalysis_def sw_loop_stop)

lemma startSample_frame_at [simp]: "startSample (frame_at signal w sr start) = start"
  by (simp add: frame_at_def Let_def)

theorem slidingWindowAnalysis_exact_fit_counterexample:
  "slidingWindowAnalysis [Fin 1, Fin 2] 2 1 16000 = Some []"
  by (simp add: slidingWindowAnalysis_short)

text \<open>
  C3, as the code has it. For a positive window size and hop size,
  \<open>slidingWindowAnalysis\<close> returns, and its frames are exactly those at the offsets
  \<open>0, hopSize, 2 * hopSize, ...\<close> with \<open>start + windowSize < signalLength\<close> (strictly), in
  offset order; each is computed from a full window of \<open>windowSize\<close> samples, so a final
  partial frame is dropped, not padded. When the signal is exactly one window long, no
  frame is produced.
\<close>

theorem slidingWindowAnalysis_frames:
  assumes "0 < windowSize" and "0 < hopSize"
  shows "\<exists>ws. slidingWindowAnalysis signal windowSize hopSize sampleRate = Some ws \<and>
     ws = map (\<lambda>k. frame_at signal windowSize sampleRate (k * hopSize))
            [0..<frame_count (length signal) windowSize hopSize] \<and>
     map startSample ws =
       map (\<lambda>k. k * hopSize) [0..<frame_count (length signal) windowSize hopSize] \<and>
     (\<forall>k. k < frame_count (length signal) windowSize hopSize \<longleftrightarrow>
          k * hopSize + windowSize < length signal) \<and>
     (\<forall>k < frame_count (length signal) windowSize hopSize.
          length (take windowSize (drop (k * hopSize) signal)) = windowSize) \<and>
     (length signal = windowSize \<longrightarrow> ws = [])"
proof -
  let ?n = "frame_count (length signal) windowSize hopSize"
  let ?ws = "map (\<lambda>k. frame_at signal windowSize sampleRate (k * hopSize)) [0..<?n]"
  have 1: "slidingWindowAnalysis signal windowSize hopSize sampleRate = Some ?ws"
    using slidingWindowAnalysis_eq [OF assms(2)] by (simp add: comp_def)
  have 2: "map startSample ?ws = map (\<lambda>k. k * hopSize) [0..<?n]" by (simp add: comp_def)
  have 3: "\<forall>k. k < ?n \<longleftrightarrow> k * hopSize + windowSize < length signal"
    using frame_count_iff [OF assms(2)] by blast
  have 4: "\<forall>k < ?n. length (take windowSize (drop (k * hopSize) signal)) = windowSize"
    using 3 by auto
  have 5: "length signal = windowSize \<longrightarrow> ?ws = []" by (simp add: frame_count_def)
  from 1 2 3 4 5 show ?thesis by blast
qed

theorem slidingWindowAnalysis_frames_witness:
  "map_option (map startSample)
     (slidingWindowAnalysis [Fin 1, Fin 2, Fin 3, Fin 4, Fin 5, Fin 6] 2 2 16000) = Some [0, 2] \<and>
   map_option (map startSample)
     (slidingWindowAnalysis [Fin 1, Fin 2, Fin 3, Fin 4, Fin 5] 2 1 16000) = Some [0, 1, 2]"
proof -
  let ?a = "[Fin 1, Fin 2, Fin 3, Fin 4, Fin 5, Fin 6]"
  let ?b = "[Fin 1, Fin 2, Fin 3, Fin 4, Fin 5]"
  have h1: "(0::nat) < 1" and h2: "(0::nat) < 2" by simp_all
  from slidingWindowAnalysis_frames [OF h2 h2, of ?a 16000]
  obtain wa where a: "slidingWindowAnalysis ?a 2 2 16000 = Some wa"
    "map startSample wa = map (\<lambda>k. k * 2) [0..<frame_count (length ?a) 2 2]"
    by blast
  from slidingWindowAnalysis_frames [OF h2 h1, of ?b 16000]
  obtain wb where b: "slidingWindowAnalysis ?b 2 1 16000 = Some wb"
    "map startSample wb = map (\<lambda>k. k * 1) [0..<frame_count (length ?b) 2 1]"
    by blast
  have fc: "frame_count (length ?a) 2 2 = 2" "frame_count (length ?b) 2 1 = 3"
    by (simp_all add: frame_count_def)
  have l: "[0..<2] = [0, Suc 0]" "[0..<3] = [0, Suc 0, 2]" by (simp_all add: upt_rec)
  have "map startSample wa = [0, 2]" using a(2) unfolding fc l by simp
  moreover have "map startSample wb = [0, 1, 2]" using b(2) unfolding fc l by simp
  ultimately show ?thesis using a(1) b(1) by simp
qed

section \<open>Recordings of at most one window\<close>

lemma mean_of_empty: "mean_of f [] = NaN"
  by (simp add: mean_of_def num_def inf_signed_def)

lemma analyzeFrames_features [simp]:
  "avgEnergy (features (analyzeFrames a sr ws)) = mean_of energy ws"
  "avgRMS (features (analyzeFrames a sr ws)) = mean_of rms ws"
  "avgZCR (features (analyzeFrames a sr ws)) = mean_of zcr ws"
  "avgDominantFreq (features (analyzeFrames a sr ws)) = mean_of dominantFreq ws"
  "energyVariance (features (analyzeFrames a sr ws)) =
     mean_of (\<lambda>w. Math_pow2 (js_sub (energy w) (mean_of energy ws))) ws"
  "windowFeatures_res (analyzeFrames a sr ws) = ws"
  by (simp_all add: analyzeFrames_def Let_def split: prod.splits)

theorem analyzeBreathing_empty_counterexample:
  "map_option (\<lambda>r. avgEnergy (features r)) (analyzeBreathing [] 16000) = Some NaN \<and>
   map_option (\<lambda>r. avgEnergy (features r)) (analyzeBreathing [] 16000) \<noteq> Some (Fin 0)"
  by (simp add: analyzeBreathing_def Let_def removeNoise_def slidingWindowAnalysis_short
      mean_of_empty)

text \<open>
  C2, as the code has it. For a recording of at most one analysis window
  (\<open>floor(sampleRate / 2)\<close> samples), \<open>analyzeBreathing\<close> returns, with no frames, and the
  five aggregate features are NaN: each is \<open>0 / 0\<close>, the empty sum over the number of
  frames, and no mean is guarded.
\<close>

theorem analyzeBreathing_short_recording:
  assumes "length audioData \<le> sampleRate div 2"
  shows "\<exists>r. analyzeBreathing audioData sampleRate = Some r \<and>
     windowFeatures_res r = [] \<and>
     avgEnergy (features r) = NaN \<and> avgRMS (features r) = NaN \<and>
     avgZCR (features r) = NaN \<and> avgDominantFreq (features r) = NaN \<and>
     energyVariance (features r) = NaN"
proof -
  have "length (removeNoise audioData noiseThreshold_default) \<le> sampleRate div 2"
    using assms by (simp add: removeNoise_def)
  then have "analyzeBreathing audioData sampleRate = Some (analyzeFrames audioData sampleRate [])"
    by (simp add: analyzeBreathing_def Let_def slidingWindowAnalysis_short)
  then show ?thesis by (simp add: mean_of_empty)
qed

theorem analyzeBreathing_short_recording_witness:
  "map_option (\<lambda>r. (avgEnergy (features r), avgRMS (features r), avgZCR (features r),
       avgDominantFreq (features r), energyVariance (features r)))
     (analyzeBreathing [Fin 0.5, Fin (- 0.5), Fin 0.25] 16000) = Some (NaN, NaN, NaN, NaN, NaN)"
proof -
  have "length [Fin 0.5, Fin (- 0.5), Fin 0.25] \<le> (16000::nat) div 2" by simp
  from analyzeBreathing_short_recording [OF this] show ?thesis by auto
qed

section \<open>An all-zero recording\<close>

lemma energy_sum_zero:
  "foldl (\<lambda>e x. js_add e (js_mul x x)) (Fin 0) (replicate m (Fin 0)) = Fin 0"
  by (induction m) simp_all

lemma calculateEnergy_zero:
  "0 < m \<Longrightarrow> calculateEnergy (replicate m (Fin 0)) = Fin 0"
  by (simp add: calculateEnergy_def energy_sum_zero num_def)

lemma calculateRMS_zero:
  "0 < m \<Longrightarrow> calculateRMS (replicate m (Fin 0)) = Fin 0"
  by (simp add: calculateRMS_def calculateEnergy_zero)

lemma foldl_no_crossing:
  assumes "\<forall>i \<in> set js. \<not> crossing s i"
  shows "foldl (\<lambda>c i. if crossing s i then c + 1 else c) c0 js = c0"
  using assms by (induction js arbitrary: c0) auto

lemma calculateZCR_zero:
  assumes "1 < m"
  shows "calculateZCR (replicate m (Fin 0)) = Fin 0"
proof -
  have "\<forall>i \<in> set [1..<m]. \<not> crossing (replicate m (Fin 0)) i"
    by (auto simp: crossing_def js_ge_def)
  then have "foldl (\<lambda>c i. if crossing (replicate m (Fin 0)) i then c + 1 else c) (0::nat) [1..<m] = 0"
    by (rule foldl_no_crossing)
  moreover have "real_of_int (int m - 1) \<noteq> 0" using assms by simp
  ultimately show ?thesis by (simp add: calculateZCR_def num_def)
qed

lemma zero_frame:
  assumes "start + w \<le> n" "1 < w"
  shows "energy (frame_at (replicate n (Fin 0)) w sr start) = Fin 0"
    and "rms (frame_at (replicate n (Fin 0)) w sr start) = Fin 0"
    and "zcr (frame_at (replicate n (Fin 0)) w sr start) = Fin 0"
proof -
  have "min w (n - start) = w" using assms by simp
  then have win: "take w (drop start (replicate n (Fin 0))) = replicate w (Fin 0)" by simp
  show "energy (frame_at (replicate n (Fin 0)) w sr start) = Fin 0"
    unfolding frame_at_def Let_def win using assms(2) by (simp add: calculateEnergy_zero)
  show "rms (frame_at (replicate n (Fin 0)) w sr start) = Fin 0"
    unfolding frame_at_def Let_def win using assms(2) by (simp add: calculateRMS_zero)
  show "zcr (frame_at (replicate n (Fin 0)) w sr start) = Fin 0"
    unfolding frame_at_def Let_def win using assms(2) by (simp add: calculateZCR_zero)
qed

lemma sum_zero:
  assumes "\<forall>w \<in> set ws. f w = Fin 0"
  shows "foldl (\<lambda>sum w. js_add sum (f w)) (Fin 0) ws = Fin 0"
  using assms by (induction ws) simp_all

lemma mean_of_zero:
  assumes "ws \<noteq> []" "\<forall>w \<in> set ws. f w = Fin 0"
  shows "mean_of f ws = Fin 0"
  using assms(1) by (simp add: mean_of_def sum_zero [OF assms(2)] num_def)

lemma detectPeaks_flat:
  assumes "\<forall>i<length s. s ! i = Fin 0"
  shows "detectPeaks s t = []"
proof -
  have "\<forall>i \<in> set [1..<length s - 1]. \<not> is_candidate s t i"
  proof
    fix i assume "i \<in> set [1..<length s - 1]"
    then have "i < length s" "i - 1 < length s" by auto
    with assms have "s ! i = Fin 0" "s ! (i - 1) = Fin 0" by blast+
    then show "\<not> is_candidate s t i" by (simp add: is_candidate_def js_gt_def)
  qed
  then show ?thesis by (simp add: detectPeaks_def foldl_no_candidate)
qed

lemma energySpikes_zero:
  assumes "\<forall>w \<in> set ws. energy w = Fin 0"
  shows "energySpikes ws = 0"
proof -
  have "energy (ws ! i) = Fin 0" if "i < length ws" for i using assms that by simp
  then show ?thesis by (auto simp: energySpikes_def js_gt_def filter_empty_conv)
qed

lemma classify_quiet:
  assumes "avgZCR fm = Fin 0" "energyVariance fm = Fin 0" "breathingRate fm = Fin 12"
    "avgRMS fm = Fin 0" "avgEnergy fm = Fin 0" "energySpikes (windowFeatures fm) = 0"
  shows "classifyBreathing fm [] =
     (\<lparr>status = Normal, breathingType = Some Regular, abnormalityConfidence = None,
       stabilityScore = Fin 100, lungComfort = ''Good'', confidenceScore = Fin 85\<rparr>,
      [\<lparr>element = \<lparr>abn_type = Noise,
                    description = ''Poor signal quality / Environmental noise'',
                    percentage = Fin 35\<rparr>,
        priority = Fin 35\<rparr>])"
  using assms
  by (simp add: classifyBreathing_def run_checks_def check_zcr_def check_variance_def
      check_rate_def check_signal_def check_spikes_def lungComfort_of_def
      NORMAL_ZCR_MAX_def NORMAL_VARIANCE_MAX_def NORMAL_BREATHING_RATE_MIN_def
      NORMAL_BREATHING_RATE_MAX_def HIGH_AMPLITUDE_THRESHOLD_def MIN_SIGNAL_THRESHOLD_def
      js_gt_def js_sub_def enqueue_def Math_max_def Let_def)


lemma analyzeFrames_quiet:
  assumes ne: "ws \<noteq> []"
    and z: "\<forall>w \<in> set ws. energy w = Fin 0 \<and> rms w = Fin 0 \<and> zcr w = Fin 0"
  shows "avgEnergy (features (analyzeFrames a sr ws)) = Fin 0"
    and "avgRMS (features (analyzeFrames a sr ws)) = Fin 0"
    and "peaks (analyzeFrames a sr ws) = []"
    and "breathingRate (features (analyzeFrames a sr ws)) = Fin 12"
    and "classification (analyzeFrames a sr ws) =
       \<lparr>status = Normal, breathingType = Some Regular, abnormalityConfidence = None,
        stabilityScore = Fin 100, lungComfort = ''Good'', confidenceScore = Fin 85\<rparr>"
    and "abnormalities (analyzeFrames a sr ws) =
       [\<lparr>abn_type = Noise, description = ''Poor signal quality / Environmental noise'',
         percentage = Fin 35, severity = Fin 35\<rparr>]"
proof -
  have e: "mean_of energy ws = Fin 0" using ne z by (intro mean_of_zero) auto
  have r: "mean_of rms ws = Fin 0" using ne z by (intro mean_of_zero) auto
  have c: "mean_of zcr ws = Fin 0" using ne z by (intro mean_of_zero) auto
  have v: "mean_of (\<lambda>w. Math_pow2 (js_sub (energy w) (Fin 0))) ws = Fin 0"
    using ne z by (intro mean_of_zero) (auto simp: Math_pow2_def js_sub_def)
  have p: "detectPeaks (map rms ws) t = []" for t
    using z by (intro detectPeaks_flat) simp
  have s: "energySpikes ws = 0" using z by (intro energySpikes_zero) simp
  let ?fm = "\<lparr>avgEnergy = Fin 0, avgRMS = Fin 0, avgZCR = Fin 0,
      avgDominantFreq = mean_of dominantFreq ws, energyVariance = Fin 0,
      breathingRate = Fin 12, peakCount = 0, windowFeatures = ws\<rparr>"
  have cl: "classifyBreathing ?fm [] =
     (\<lparr>status = Normal, breathingType = Some Regular, abnormalityConfidence = None,
       stabilityScore = Fin 100, lungComfort = ''Good'', confidenceScore = Fin 85\<rparr>,
      [\<lparr>element = \<lparr>abn_type = Noise,
                    description = ''Poor signal quality / Environmental noise'',
                    percentage = Fin 35\<rparr>,
        priority = Fin 35\<rparr>])"
    by (rule classify_quiet) (simp_all add: s)
  have af: "analyzeFrames a sr ws =
     \<lparr>features = ?fm,
      classification = \<lparr>status = Normal, breathingType = Some Regular,
        abnormalityConfidence = None, stabilityScore = Fin 100, lungComfort = ''Good'',
        confidenceScore = Fin 85\<rparr>,
      abnormalities = [\<lparr>abn_type = Noise,
         description = ''Poor signal quality / Environmental noise'',
         percentage = Fin 35, severity = Fin 35\<rparr>],
      windowFeatures_res = ws, peaks = []\<rparr>"
    unfolding analyzeFrames_def Let_def e r c v p
    by (simp add: cl getAll_def)
  show "avgEnergy (features (analyzeFrames a sr ws)) = Fin 0"
    and "avgRMS (features (analyzeFrames a sr ws)) = Fin 0"
    and "peaks (analyzeFrames a sr ws) = []"
    and "breathingRate (features (analyzeFrames a sr ws)) = Fin 12"
    and "classification (analyzeFrames a sr ws) =
       \<lparr>status = Normal, breathingType = Some Regular, abnormalityConfidence = None,
        stabilityScore = Fin 100, lungComfort = ''Good'', confidenceScore = Fin 85\<rparr>"
    and "abnormalities (analyzeFrames a sr ws) =
       [\<lparr>abn_type = Noise, description = ''Poor signal quality / Environmental noise'',
         percentage = Fin 35, severity = Fin 35\<rparr>]"
    by (simp_all add: af)
qed

lemma zero_recording:
  assumes sr: "3 < sr" and n: "sr div 2 < n"
  shows "\<exists>ws. analyzeBreathing (replicate n (Fin 0)) sr =
            Some (analyzeFrames (replicate n (Fin 0)) sr ws) \<and>
          length ws = frame_count n (sr div 2) (sr div 2 div 2) \<and> ws \<noteq> [] \<and>
          (\<forall>w \<in> set ws. energy w = Fin 0 \<and> rms w = Fin 0 \<and> zcr w = Fin 0)"
proof -
  let ?z = "replicate n (Fin 0)"
  let ?w = "sr div 2"
  let ?h = "sr div 2 div 2"
  let ?ws = "map (frame_at ?z ?w sr) (map (\<lambda>k. k * ?h) [0..<frame_count n ?w ?h])"
  have w: "1 < ?w" and h: "0 < ?h" using sr by auto
  have clean: "removeNoise ?z noiseThreshold_default = ?z"
    by (simp add: removeNoise_def)
  have "slidingWindowAnalysis ?z ?w ?h sr = Some ?ws"
    using slidingWindowAnalysis_eq [OF h, of ?z ?w sr] by simp
  then have 1: "analyzeBreathing ?z sr = Some (analyzeFrames ?z sr ?ws)"
    by (simp add: analyzeBreathing_def Let_def clean)
  have "0 < frame_count n ?w ?h" using n by (simp add: frame_count_def)
  then have 2: "?ws \<noteq> []" by simp
  have 3: "\<forall>f \<in> set ?ws. energy f = Fin 0 \<and> rms f = Fin 0 \<and> zcr f = Fin 0"
  proof
    fix f assume "f \<in> set ?ws"
    then obtain k where k: "k < frame_count n ?w ?h" and f: "f = frame_at ?z ?w sr (k * ?h)"
      by auto
    from k have "k * ?h + ?w \<le> n" using frame_count_iff [OF h, of k n ?w] by simp
    from zero_frame [OF this w, of sr] show "energy f = Fin 0 \<and> rms f = Fin 0 \<and> zcr f = Fin 0"
      by (simp add: f)
  qed
  have 4: "length ?ws = frame_count n ?w ?h" by simp
  from 1 2 3 4 show ?thesis by blast
qed

theorem all_zero_recording_counterexample:
  "map_option (\<lambda>r. status (classification r))
     (analyzeBreathing (replicate 128000 (Fin 0)) 16000) = Some Normal"
proof -
  have "(3::nat) < 16000" "(16000::nat) div 2 < 128000" by simp_all
  from zero_recording [OF this] obtain ws where
    a: "analyzeBreathing (replicate 128000 (Fin 0)) 16000 =
          Some (analyzeFrames (replicate 128000 (Fin 0)) 16000 ws)"
    and ne: "ws \<noteq> []"
    and z: "\<forall>w \<in> set ws. energy w = Fin 0 \<and> rms w = Fin 0 \<and> zcr w = Fin 0"
    by blast
  show ?thesis by (simp add: a analyzeFrames_quiet(5) [OF ne z])
qed

text \<open>
  C1, as the code has it. For an all-zero recording of 8 seconds at 16 kHz (128000
  samples), \<open>analyzeBreathing\<close> returns with 30 frames, \<open>avgEnergy = 0\<close> and
  \<open>avgRMS = 0\<close>; no peak is found, so \<open>breathingRate\<close> is the default 12; the
  signal-quality check triggers and its noise event is the one reported abnormality. That
  check adds 15 to the score and leaves \<open>isNormal\<close> set, so the status is normal, with
  breathing type regular and confidence 85.
\<close>

theorem all_zero_recording:
  "\<exists>r. analyzeBreathing (replicate 128000 (Fin 0)) 16000 = Some r \<and>
     length (windowFeatures_res r) = 30 \<and>
     avgEnergy (features r) = Fin 0 \<and> avgRMS (features r) = Fin 0 \<and>
     peaks r = [] \<and> breathingRate (features r) = Fin 12 \<and>
     abnormalities r =
       [\<lparr>abn_type = Noise, description = ''Poor signal quality / Environmental noise'',
         percentage = Fin 35, severity = Fin 35\<rparr>] \<and>
     status (classification r) = Normal \<and>
     breathingType (classification r) = Some Regular \<and>
     confidenceScore (classification r) = Fin 85"
proof -
  have "(3::nat) < 16000" "(16000::nat) div 2 < 128000" by simp_all
  from zero_recording [OF this] obtain ws where
    a: "analyzeBreathing (replicate 128000 (Fin 0)) 16000 =
          Some (analyzeFrames (replicate 128000 (Fin 0)) 16000 ws)"
    and len: "length ws = frame_count 128000 (16000 div 2) (16000 div 2 div 2)"
    and ne: "ws \<noteq> []"
    and z: "\<forall>w \<in> set ws. energy w = Fin 0 \<and> rms w = Fin 0 \<and> zcr w = Fin 0"
    by blast
  have "frame_count 128000 (16000 div 2) (16000 div 2 div 2) = 30"
    by (simp add: frame_count_def)
  with len have "length ws = 30" by simp
  then show ?thesis using a analyzeFrames_quiet [OF ne z] by simp
qed

end
